theory Spec2Isabelle
  imports Main "HOL-Library.AList" "HOL-Library.Multiset"
begin

section \<open>The crossword solver of \<^verbatim>\<open>crossword/generate.py\<close>\<close>

text \<open>
  The class \<^verbatim>\<open>CrosswordCreator\<close> is embedded method by method. Conventions:
  \<^item> a Python \<^verbatim>\<open>set\<close> is a list without duplicates, in iteration order; a set
    built by successive \<^verbatim>\<open>add\<close> iterates in insertion order, and \<^verbatim>\<open>remove\<close>
    keeps the order of what is left;
  \<^item> a Python \<^verbatim>\<open>dict\<close> is an association list in insertion order;
  \<^item> an exception is a value \<open>Inl e\<close> of the result;
  \<^item> the mutable state is the attribute \<^verbatim>\<open>self.domains\<close> and the assignment
    dictionaries, which Python passes by reference: they live in a store and a method
    receives their address. Every method returns the state it leaves behind, also
    when it raises.
\<close>

subsection \<open>Data model\<close>

datatype direction = ACROSS | DOWN

text \<open>\<^verbatim>\<open>Variable(i, j, direction, length)\<close>: equality is equality of the four fields.\<close>

datatype variable = Variable (var_i: int) (var_j: int) (var_direction: direction) (var_length: int)

text \<open>
  The Python exceptions the solver can raise, and \<open>InvalidRef\<close>, which is no Python
  exception: it is the outcome of the model when a method is handed an address outside
  the store, which no Python program can do.
\<close>

datatype error = IndexError | KeyError | TypeError | InvalidRef

text \<open>What a method hands back: Python's \<^verbatim>\<open>None\<close> or a boolean.\<close>

datatype pyval = PyNone | PyBool bool

fun truthy :: "pyval \<Rightarrow> bool" where
  "truthy PyNone = False"
| "truthy (PyBool b) = b"

text \<open>
  The class \<^verbatim>\<open>Crossword\<close> is not part of the sources at hand; the solver reads three
  of its attributes, taken here as parameters. \<open>overlaps\<close> is a dictionary keyed by
  ordered pairs of variables (a missing key raises \<^verbatim>\<open>KeyError\<close>) whose values are
  \<^verbatim>\<open>None\<close> or a pair of character positions; the positions come from
  \<^verbatim>\<open>list.index\<close> and are natural numbers.
\<close>

record crossword =
  variables :: "variable list"
  words :: "string list"
  overlaps :: "variable \<times> variable \<Rightarrow> (nat \<times> nat) option option"

text \<open>
  Modelled from the spec: the method \<^verbatim>\<open>Crossword.neighbors\<close> is missing from the
  sources; the spec describes it as the query returning all slots overlapping a given
  slot.
\<close>

definition neighbors :: "crossword \<Rightarrow> variable \<Rightarrow> variable list" where
  "neighbors cw var =
     filter (\<lambda>v. v \<noteq> var \<and> (case overlaps cw (v, var) of Some (Some _) \<Rightarrow> True | _ \<Rightarrow> False))
       (variables cw)"

type_synonym assignment = "(variable \<times> string) list"

type_synonym ref = nat

text \<open>
  The state: \<^verbatim>\<open>self.domains\<close> and the store of assignment dictionaries, addressed
  by position; a new dictionary is put at the end.
\<close>

record creator =
  domains :: "(variable \<times> string list) list"
  store :: "assignment list"

text \<open>\<^verbatim>\<open>__init__\<close>: every variable starts with a copy of the whole word list.\<close>

definition init :: "crossword \<Rightarrow> creator" where
  "init cw = \<lparr>domains = map (\<lambda>var. (var, words cw)) (variables cw), store = []\<rparr>"

subsection \<open>Python primitives\<close>

definition py_index :: "'a list \<Rightarrow> nat \<Rightarrow> error + 'a" where
  "py_index xs k = (if k < length xs then Inr (xs ! k) else Inl IndexError)"

definition set_add :: "'a \<Rightarrow> 'a list \<Rightarrow> 'a list" where
  "set_add x xs = (if x \<in> set xs then xs else xs @ [x])"

definition getitem :: "('k \<times> 'v) list \<Rightarrow> 'k \<Rightarrow> error + 'v" where
  "getitem d k = (case map_of d k of None \<Rightarrow> Inl KeyError | Some v \<Rightarrow> Inr v)"

text \<open>\<^verbatim>\<open>for x in words2remove: d.remove(x)\<close>; \<^verbatim>\<open>remove\<close> raises on a missing element.\<close>

fun remove_words :: "string list \<Rightarrow> string list \<Rightarrow> string list \<times> (error + unit)" where
  "remove_words [] d = (d, Inr ())"
| "remove_words (x # xs) d =
     (if x \<in> set d then remove_words xs (removeAll x d) else (d, Inl KeyError))"

subsection \<open>Node consistency\<close>

text \<open>The inner loop of \<^verbatim>\<open>enforce_node_consistency\<close> that collects \<^verbatim>\<open>words2remove\<close>.\<close>

fun wrong_length_words :: "variable \<Rightarrow> string list \<Rightarrow> string list \<Rightarrow> string list" where
  "wrong_length_words variable [] words2remove = words2remove"
| "wrong_length_words variable (word # rest) words2remove =
     wrong_length_words variable rest
       (if int (length word) \<noteq> var_length variable then set_add word words2remove
        else words2remove)"

text \<open>The outer loop, over the keys of \<^verbatim>\<open>self.domains\<close>.\<close>

fun enforce_loop :: "variable list \<Rightarrow> creator \<Rightarrow> creator \<times> (error + unit)" where
  "enforce_loop [] s = (s, Inr ())"
| "enforce_loop (variable # rest) s =
     (case getitem (domains s) variable of
        Inl e \<Rightarrow> (s, Inl e)
      | Inr d \<Rightarrow>
          (case remove_words (wrong_length_words variable d []) d of
             (d', Inl e) \<Rightarrow> (s\<lparr>domains := AList.update variable d' (domains s)\<rparr>, Inl e)
           | (d', Inr _) \<Rightarrow>
               enforce_loop rest (s\<lparr>domains := AList.update variable d' (domains s)\<rparr>)))"

definition enforce_node_consistency :: "creator \<Rightarrow> creator \<times> (error + unit)" where
  "enforce_node_consistency s = enforce_loop (map fst (domains s)) s"

subsection \<open>Arc consistency\<close>

text \<open>The loop of \<^verbatim>\<open>revise\<close> that fills \<^verbatim>\<open>charY\<close> from the domain of \<^verbatim>\<open>y\<close>.\<close>

fun chars_at :: "nat \<Rightarrow> string list \<Rightarrow> error + char list" where
  "chars_at k [] = Inr []"
| "chars_at k (wordY # rest) =
     (case py_index wordY k of
        Inl e \<Rightarrow> Inl e
      | Inr c \<Rightarrow> (case chars_at k rest of Inl e \<Rightarrow> Inl e | Inr cs \<Rightarrow> Inr (c # cs)))"

text \<open>
  The scan of the domain of \<^verbatim>\<open>x\<close>. The domain of \<^verbatim>\<open>y\<close> is looked up once per
  word of \<^verbatim>\<open>x\<close>, so a missing \<^verbatim>\<open>y\<close> raises only when there is a word to scan.
\<close>

fun revise_scan ::
  "nat \<Rightarrow> nat \<Rightarrow> error + string list \<Rightarrow> string list \<Rightarrow> string list \<Rightarrow> error + string list" where
  "revise_scan k l dy [] words2remove = Inr words2remove"
| "revise_scan k l dy (wordX # rest) words2remove =
     (case py_index wordX k of
        Inl e \<Rightarrow> Inl e
      | Inr overlapping_char \<Rightarrow>
          (case dy of
             Inl e \<Rightarrow> Inl e
           | Inr wordsY \<Rightarrow>
               (case chars_at l wordsY of
                  Inl e \<Rightarrow> Inl e
                | Inr charY \<Rightarrow>
                    revise_scan k l dy rest
                      (if overlapping_char \<notin> set charY then set_add wordX words2remove
                       else words2remove))))"

text \<open>
  \<^verbatim>\<open>revise\<close>. The source sets \<^verbatim>\<open>revised = False\<close>, assigns \<^verbatim>\<open>True\<close> to another
  local, \<^verbatim>\<open>revise\<close>, when it marks a word, and ends without a \<^verbatim>\<open>return\<close>
  statement: whatever it removed, the call evaluates to \<^verbatim>\<open>None\<close>.
\<close>

definition revise :: "crossword \<Rightarrow> variable \<Rightarrow> variable \<Rightarrow> creator \<Rightarrow> creator \<times> (error + pyval)" where
  "revise cw x y s =
     (case overlaps cw (x, y) of
        None \<Rightarrow> (s, Inl KeyError)
      | Some None \<Rightarrow> (s, Inr PyNone)
      | Some (Some (k, l)) \<Rightarrow>
          (case getitem (domains s) x of
             Inl e \<Rightarrow> (s, Inl e)
           | Inr dx \<Rightarrow>
               (case revise_scan k l (getitem (domains s) y) dx [] of
                  Inl e \<Rightarrow> (s, Inl e)
                | Inr words2remove \<Rightarrow>
                    (case remove_words words2remove dx of
                       (dx', Inl e) \<Rightarrow> (s\<lparr>domains := AList.update x dx' (domains s)\<rparr>, Inl e)
                     | (dx', Inr _) \<Rightarrow>
                         (s\<lparr>domains := AList.update x dx' (domains s)\<rparr>, Inr PyNone)))))"

text \<open>The initial queue of \<^verbatim>\<open>ac3\<close>: the two nested loops over the variables.\<close>

fun arcs_from :: "crossword \<Rightarrow> variable \<Rightarrow> variable list \<Rightarrow> error + (variable \<times> variable) list" where
  "arcs_from cw v1 [] = Inr []"
| "arcs_from cw v1 (v2 # rest) =
     (if v1 \<noteq> v2 then
        (case overlaps cw (v1, v2) of
           None \<Rightarrow> Inl KeyError
         | Some ov \<Rightarrow>
             (case arcs_from cw v1 rest of
                Inl e \<Rightarrow> Inl e
              | Inr q \<Rightarrow> Inr (if ov \<noteq> None then (v1, v2) # q else q)))
      else arcs_from cw v1 rest)"

fun all_arcs :: "crossword \<Rightarrow> variable list \<Rightarrow> error + (variable \<times> variable) list" where
  "all_arcs cw [] = Inr []"
| "all_arcs cw (v1 # rest) =
     (case arcs_from cw v1 (variables cw) of
        Inl e \<Rightarrow> Inl e
      | Inr q1 \<Rightarrow> (case all_arcs cw rest of Inl e \<Rightarrow> Inl e | Inr q \<Rightarrow> Inr (q1 @ q)))"

lemma revise_value: "snd (revise cw x y s) = Inr r \<Longrightarrow> r = PyNone"
  by (auto simp: revise_def split: option.splits sum.splits prod.splits)

text \<open>The \<^verbatim>\<open>while queue\<close> loop of \<^verbatim>\<open>ac3\<close>.\<close>

function ac3_loop ::
  "crossword \<Rightarrow> (variable \<times> variable) list \<Rightarrow> creator \<Rightarrow> creator \<times> (error + pyval)" where
  "ac3_loop cw [] s = (s, Inr (PyBool True))"
| "ac3_loop cw ((x, y) # queue) s =
     (case revise cw x y s of
        (s1, Inl e) \<Rightarrow> (s1, Inl e)
      | (s1, Inr r) \<Rightarrow>
          (if truthy r then
             (case getitem (domains s1) x of
                Inl e \<Rightarrow> (s1, Inl e)
              | Inr dx \<Rightarrow>
                  (if dx = [] then (s1, Inr (PyBool False))
                   else ac3_loop cw
                          (queue @ map (\<lambda>neighbor. (neighbor, x))
                                     (filter (\<lambda>neighbor. neighbor \<noteq> y) (neighbors cw x)))
                          s1))
           else ac3_loop cw queue s1))"
  by pat_completeness auto
termination
proof (relation "measure (\<lambda>(cw, queue, s). length queue)", goal_cases)
  case 1
  show ?case by simp
next
  case (2 cw x y queue s s1 res r dx)
  then have "snd (revise cw x y s) = Inr r" by (metis snd_conv)
  from revise_value [OF this] 2 show ?case by simp
next
  case (3 cw x y queue s s1 res r)
  show ?case by simp
qed

definition ac3 ::
  "crossword \<Rightarrow> (variable \<times> variable) list option \<Rightarrow> creator \<Rightarrow> creator \<times> (error + pyval)" where
  "ac3 cw arcs s =
     (case arcs of
        None \<Rightarrow>
          (case all_arcs cw (variables cw) of
             Inl e \<Rightarrow> (s, Inl e)
           | Inr queue \<Rightarrow> ac3_loop cw queue s)
      | Some queue \<Rightarrow> ac3_loop cw queue s)"


subsection \<open>The store of assignment dictionaries\<close>

definition deref :: "creator \<Rightarrow> ref \<Rightarrow> error + assignment" where
  "deref s p = (if p < length (store s) then Inr (store s ! p) else Inl InvalidRef)"

text \<open>\<^verbatim>\<open>dict()\<close>\<close>

definition dict_new :: "creator \<Rightarrow> creator \<times> (error + ref)" where
  "dict_new s = (s\<lparr>store := store s @ [[]]\<rparr>, Inr (length (store s)))"

text \<open>\<^verbatim>\<open>assignment.copy()\<close>\<close>

definition dict_copy :: "ref \<Rightarrow> creator \<Rightarrow> creator \<times> (error + ref)" where
  "dict_copy p s =
     (case deref s p of
        Inl e \<Rightarrow> (s, Inl e)
      | Inr a \<Rightarrow> (s\<lparr>store := store s @ [a]\<rparr>, Inr (length (store s))))"

text \<open>\<^verbatim>\<open>assignment[k] = v\<close>\<close>

definition dict_setitem :: "ref \<Rightarrow> variable \<Rightarrow> string \<Rightarrow> creator \<Rightarrow> creator \<times> (error + unit)" where
  "dict_setitem p k v s =
     (case deref s p of
        Inl e \<Rightarrow> (s, Inl e)
      | Inr a \<Rightarrow> (s\<lparr>store := (store s)[p := AList.update k v a]\<rparr>, Inr ()))"

subsection \<open>Checks on an assignment\<close>

definition assignment_complete :: "crossword \<Rightarrow> ref \<Rightarrow> creator \<Rightarrow> creator \<times> (error + bool)" where
  "assignment_complete cw p s =
     (case deref s p of
        Inl e \<Rightarrow> (s, Inl e)
      | Inr assignment \<Rightarrow>
          (s, Inr (set (map fst assignment) = set (variables cw)
                   \<and> list_all (\<lambda>word. word \<noteq> []) (map snd assignment))))"

text \<open>The loop of \<^verbatim>\<open>consistent\<close> over the neighbors of \<^verbatim>\<open>v\<close>.\<close>

fun neighbor_loop :: "crossword \<Rightarrow> assignment \<Rightarrow> variable \<Rightarrow> variable list \<Rightarrow> error + bool" where
  "neighbor_loop cw assignment v [] = Inr True"
| "neighbor_loop cw assignment v (neighbor # rest) =
     (if neighbor \<in> set (map fst assignment) then
        (case overlaps cw (v, neighbor) of
           None \<Rightarrow> Inl KeyError
         | Some overlap \<Rightarrow>
             (case getitem assignment v of
                Inl e \<Rightarrow> Inl e
              | Inr wordV \<Rightarrow>
                  (case overlap of
                     None \<Rightarrow> Inl TypeError
                   | Some (k, l) \<Rightarrow>
                       (case py_index wordV k of
                          Inl e \<Rightarrow> Inl e
                        | Inr c \<Rightarrow>
                            (case getitem assignment neighbor of
                               Inl e \<Rightarrow> Inl e
                             | Inr wordN \<Rightarrow>
                                 (case py_index wordN l of
                                    Inl e \<Rightarrow> Inl e
                                  | Inr c' \<Rightarrow>
                                      (if c \<noteq> c' then Inr False
                                       else neighbor_loop cw assignment v rest)))))))
      else neighbor_loop cw assignment v rest)"

text \<open>The loop of \<^verbatim>\<open>consistent\<close> over the keys of the assignment.\<close>

fun consistent_loop :: "crossword \<Rightarrow> assignment \<Rightarrow> variable list \<Rightarrow> error + bool" where
  "consistent_loop cw assignment [] = Inr True"
| "consistent_loop cw assignment (v # rest) =
     (case getitem assignment v of
        Inl e \<Rightarrow> Inl e
      | Inr word \<Rightarrow>
          (if int (length word) \<noteq> var_length v then Inr False
           else
             (case neighbor_loop cw assignment v (neighbors cw v) of
                Inl e \<Rightarrow> Inl e
              | Inr ok \<Rightarrow> (if ok then consistent_loop cw assignment rest else Inr False))))"

definition consistent :: "crossword \<Rightarrow> ref \<Rightarrow> creator \<Rightarrow> creator \<times> (error + bool)" where
  "consistent cw p s =
     (case deref s p of
        Inl e \<Rightarrow> (s, Inl e)
      | Inr assignment \<Rightarrow>
          (if length (remdups (map snd assignment)) \<noteq> length (remdups (map fst assignment))
           then (s, Inr False)
           else (s, consistent_loop cw assignment (map fst assignment))))"

subsection \<open>Value ordering\<close>

text \<open>The innermost loop of \<^verbatim>\<open>order_domain_values\<close>, over the domain of a neighbor.\<close>

fun count_loop ::
  "nat \<Rightarrow> nat \<Rightarrow> string \<Rightarrow> string list \<Rightarrow> (string \<times> int) list \<Rightarrow> error + (string \<times> int) list" where
  "count_loop k l wordV [] num_eliminated = Inr num_eliminated"
| "count_loop k l wordV (wordN # rest) num_eliminated =
     (case py_index wordV k of
        Inl e \<Rightarrow> Inl e
      | Inr c \<Rightarrow>
          (case py_index wordN l of
             Inl e \<Rightarrow> Inl e
           | Inr c' \<Rightarrow>
               (if c \<noteq> c' then
                  (case getitem num_eliminated wordV of
                     Inl e \<Rightarrow> Inl e
                   | Inr n \<Rightarrow>
                       count_loop k l wordV rest (AList.update wordV (n + 1) num_eliminated))
                else count_loop k l wordV rest num_eliminated)))"

text \<open>The loop over the neighbors of \<^verbatim>\<open>var\<close>.\<close>

fun neighbor_count_loop ::
  "crossword \<Rightarrow> (variable \<times> string list) list \<Rightarrow> assignment \<Rightarrow> variable \<Rightarrow> string \<Rightarrow>
   variable list \<Rightarrow> (string \<times> int) list \<Rightarrow> error + (string \<times> int) list" where
  "neighbor_count_loop cw doms assignment var wordV [] num_eliminated = Inr num_eliminated"
| "neighbor_count_loop cw doms assignment var wordV (neighbor # rest) num_eliminated =
     (if neighbor \<notin> set (map fst assignment) then
        (case overlaps cw (var, neighbor) of
           None \<Rightarrow> Inl KeyError
         | Some None \<Rightarrow> Inl TypeError
         | Some (Some (k, l)) \<Rightarrow>
             (case getitem doms neighbor of
                Inl e \<Rightarrow> Inl e
              | Inr wordsN \<Rightarrow>
                  (case count_loop k l wordV wordsN num_eliminated of
                     Inl e \<Rightarrow> Inl e
                   | Inr num_eliminated' \<Rightarrow>
                       neighbor_count_loop cw doms assignment var wordV rest num_eliminated')))
      else neighbor_count_loop cw doms assignment var wordV rest num_eliminated)"

text \<open>The loop over the words of the domain of \<^verbatim>\<open>var\<close>.\<close>

fun eliminated_loop ::
  "crossword \<Rightarrow> (variable \<times> string list) list \<Rightarrow> assignment \<Rightarrow> variable \<Rightarrow> string list \<Rightarrow>
   (string \<times> int) list \<Rightarrow> error + (string \<times> int) list" where
  "eliminated_loop cw doms assignment var [] num_eliminated = Inr num_eliminated"
| "eliminated_loop cw doms assignment var (wordV # rest) num_eliminated =
     (case neighbor_count_loop cw doms assignment var wordV (neighbors cw var) num_eliminated of
        Inl e \<Rightarrow> Inl e
      | Inr num_eliminated' \<Rightarrow> eliminated_loop cw doms assignment var rest num_eliminated')"

text \<open>
  \<^verbatim>\<open>sorted\<close> is stable, as \<open>sort_key\<close> is. The assignment is read after the first
  use of \<^verbatim>\<open>self.domains[var]\<close>.
\<close>

definition order_domain_values ::
  "crossword \<Rightarrow> variable \<Rightarrow> ref \<Rightarrow> creator \<Rightarrow> creator \<times> (error + string list)" where
  "order_domain_values cw var p s =
     (case getitem (domains s) var of
        Inl e \<Rightarrow> (s, Inl e)
      | Inr wordsV \<Rightarrow>
          (case deref s p of
             Inl e \<Rightarrow> (s, Inl e)
           | Inr assignment \<Rightarrow>
               (case eliminated_loop cw (domains s) assignment var wordsV
                       (fold (\<lambda>word. AList.update word 0) wordsV []) of
                  Inl e \<Rightarrow> (s, Inl e)
                | Inr num_eliminated \<Rightarrow> (s, Inr (map fst (sort_key snd num_eliminated))))))"

subsection \<open>Variable selection\<close>

fun unassigned_loop :: "assignment \<Rightarrow> variable list \<Rightarrow> variable list \<Rightarrow> variable list" where
  "unassigned_loop assignment [] unassigned_variables = unassigned_variables"
| "unassigned_loop assignment (v # rest) unassigned_variables =
     unassigned_loop assignment rest
       (if v \<notin> set (map fst assignment) then set_add v unassigned_variables
        else unassigned_variables)"

text \<open>\<^verbatim>\<open>num_remaining_values\<close>, in the order of the set it is built from.\<close>

fun remaining_values ::
  "(variable \<times> string list) list \<Rightarrow> variable list \<Rightarrow> error + (variable \<times> int) list" where
  "remaining_values doms [] = Inr []"
| "remaining_values doms (v # rest) =
     (case getitem doms v of
        Inl e \<Rightarrow> Inl e
      | Inr d \<Rightarrow>
          (case remaining_values doms rest of
             Inl e \<Rightarrow> Inl e
           | Inr r \<Rightarrow> Inr ((v, int (length d)) # r)))"

text \<open>
  \<^verbatim>\<open>sorted(..., reverse=True)\<close> keeps the order of equal keys: it is the stable sort
  on the negated key.
\<close>

definition select_unassigned_variable ::
  "crossword \<Rightarrow> ref \<Rightarrow> creator \<Rightarrow> creator \<times> (error + variable)" where
  "select_unassigned_variable cw p s =
     (case deref s p of
        Inl e \<Rightarrow> (s, Inl e)
      | Inr assignment \<Rightarrow>
          (let unassigned_variables = unassigned_loop assignment (variables cw) [] in
           case remaining_values (domains s) unassigned_variables of
             Inl e \<Rightarrow> (s, Inl e)
           | Inr num_remaining_values \<Rightarrow>
               (case sort_key snd num_remaining_values of
                  [] \<Rightarrow> (s, Inl IndexError)
                | [(v, n)] \<Rightarrow> (s, Inr v)
                | (v, n) # (v', n') # _ \<Rightarrow>
                    (if n \<noteq> n' then (s, Inr v)
                     else
                       (case sort_key (\<lambda>e. - snd e)
                               (map (\<lambda>v. (v, int (length (neighbors cw v))))
                                  unassigned_variables) of
                          [] \<Rightarrow> (s, Inl IndexError)
                        | (d, _) # _ \<Rightarrow> (s, Inr d))))))"



subsection \<open>Methods that leave the state alone\<close>

lemma assignment_complete_state: "fst (assignment_complete cw p s) = s"
  by (simp add: assignment_complete_def split: sum.splits)

lemma consistent_state: "fst (consistent cw p s) = s"
  by (simp add: consistent_def split: sum.splits)

lemma order_domain_values_state: "fst (order_domain_values cw var p s) = s"
  by (simp add: order_domain_values_def split: sum.splits)

lemma select_unassigned_variable_state: "fst (select_unassigned_variable cw p s) = s"
  by (simp add: select_unassigned_variable_def Let_def split: sum.splits list.splits prod.splits)

lemma set_unassigned_loop:
  "set (unassigned_loop a vs acc) = set acc \<union> {v \<in> set vs. v \<notin> fst ` set a}"
  by (induction vs arbitrary: acc) (auto simp: set_add_def)

lemma remaining_values_keys: "remaining_values doms us = Inr r \<Longrightarrow> map fst r = us"
  by (induction us arbitrary: r) (auto split: sum.splits)

lemma select_unassigned_variable_sound:
  assumes "select_unassigned_variable cw p s = (s', Inr var)"
  shows "\<exists>a. deref s p = Inr a \<and> var \<in> set (variables cw) \<and> var \<notin> fst ` set a"
proof -
  from assms obtain a where a: "deref s p = Inr a"
    by (cases "deref s p") (simp_all add: select_unassigned_variable_def)
  define us where "us = unassigned_loop a (variables cw) []"
  define degs where "degs = sort_key (\<lambda>e. - snd e) (map (\<lambda>v. (v, int (length (neighbors cw v)))) us)"
  from assms a obtain nrv where nrv: "remaining_values (domains s) us = Inr nrv"
    by (cases "remaining_values (domains s) us")
       (simp_all add: select_unassigned_variable_def us_def)
  have sel: "(case sort_key snd nrv of
        [] \<Rightarrow> (s, Inl IndexError)
      | [(v, n)] \<Rightarrow> (s, Inr v)
      | (v, n) # (v', n') # _ \<Rightarrow>
          (if n \<noteq> n' then (s, Inr v)
           else (case degs of [] \<Rightarrow> (s, Inl IndexError) | (d, _) # _ \<Rightarrow> (s, Inr d))))
      = (s', Inr var)"
    using assms a nrv unfolding us_def degs_def by (simp add: select_unassigned_variable_def)
  have keys: "fst ` set (sort_key snd nrv) = set us"
    using remaining_values_keys [OF nrv] by (metis set_map set_sort)
  have deg: "fst ` set degs = set us"
    by (simp add: degs_def image_image)
  have "var \<in> set us"
  proof (cases "sort_key snd nrv")
    case Nil
    with sel show ?thesis by simp
  next
    case (Cons x xs)
    obtain v n where x: "x = (v, n)" by (cases x)
    have v: "v \<in> set us" using keys Cons x by force
    show ?thesis
    proof (cases xs)
      case Nil
      with sel Cons x v show ?thesis by simp
    next
      case (Cons y ys)
      obtain v' n' where y: "y = (v', n')" by (cases y)
      show ?thesis
      proof (cases "n \<noteq> n'")
        case True
        with sel \<open>sort_key snd nrv = x # xs\<close> Cons x y v show ?thesis by simp
      next
        case False
        show ?thesis
        proof (cases degs)
          case Nil
          with sel \<open>sort_key snd nrv = x # xs\<close> Cons x y False show ?thesis by simp
        next
          case (Cons z zs)
          obtain d k where z: "z = (d, k)" by (cases z)
          have "d \<in> set us" using deg Cons z by force
          with sel \<open>sort_key snd nrv = x # xs\<close> \<open>xs = y # ys\<close> x y False Cons z
          show ?thesis by simp
        qed
      qed
    qed
  qed
  with a show ?thesis by (auto simp: us_def set_unassigned_loop)
qed

subsection \<open>Backtracking search\<close>

text \<open>
  \<^verbatim>\<open>backtrack\<close> and its \<^verbatim>\<open>for value in ...\<close> loop. The loop copies the dictionary
  behind \<^verbatim>\<open>assignment\<close> afresh in each round and binds \<^verbatim>\<open>var\<close> in the copy.
\<close>

function backtrack :: "crossword \<Rightarrow> ref \<Rightarrow> creator \<Rightarrow> creator \<times> (error + ref option)"
  and backtrack_loop ::
    "crossword \<Rightarrow> ref \<Rightarrow> variable \<Rightarrow> string list \<Rightarrow> creator \<Rightarrow> creator \<times> (error + ref option)" where
  "backtrack cw p s =
     (case assignment_complete cw p s of
        (s1, Inl e) \<Rightarrow> (s1, Inl e)
      | (s1, Inr complete) \<Rightarrow>
          (if complete then (s1, Inr (Some p))
           else
             (case select_unassigned_variable cw p s1 of
                (s2, Inl e) \<Rightarrow> (s2, Inl e)
              | (s2, Inr var) \<Rightarrow>
                  (case order_domain_values cw var p s2 of
                     (s3, Inl e) \<Rightarrow> (s3, Inl e)
                   | (s3, Inr vals) \<Rightarrow> backtrack_loop cw p var vals s3))))"
| "backtrack_loop cw p var [] s = (s, Inr None)"
| "backtrack_loop cw p var (value # rest) s =
     (case dict_copy p s of
        (s1, Inl e) \<Rightarrow> (s1, Inl e)
      | (s1, Inr new_assignment) \<Rightarrow>
          (case dict_setitem new_assignment var value s1 of
             (s2, Inl e) \<Rightarrow> (s2, Inl e)
           | (s2, Inr _) \<Rightarrow>
               (case consistent cw new_assignment s2 of
                  (s3, Inl e) \<Rightarrow> (s3, Inl e)
                | (s3, Inr ok) \<Rightarrow>
                    (if ok then
                       (case backtrack cw new_assignment s3 of
                          (s4, Inl e) \<Rightarrow> (s4, Inl e)
                        | (s4, Inr (Some result)) \<Rightarrow> (s4, Inr (Some result))
                        | (s4, Inr None) \<Rightarrow> backtrack_loop cw p var rest s4)
                     else backtrack_loop cw p var rest s3))))"
  by pat_completeness auto


text \<open>
  \<open>extends s s'\<close>: the domains are the same and every dictionary of \<open>s\<close> is still
  there, unchanged, at its address; \<open>s'\<close> may hold new ones.
\<close>

definition extends :: "creator \<Rightarrow> creator \<Rightarrow> bool" where
  "extends s s' \<longleftrightarrow> domains s' = domains s \<and> take (length (store s)) (store s') = store s"

lemma extends_refl: "extends s s"
  by (simp add: extends_def)

lemma extends_length: "extends s s' \<Longrightarrow> length (store s) \<le> length (store s')"
proof -
  assume "extends s s'"
  then have "length (take (length (store s)) (store s')) = length (store s)"
    by (simp add: extends_def)
  then show ?thesis by simp
qed

lemma extends_nth: "extends s s' \<Longrightarrow> p < length (store s) \<Longrightarrow> store s' ! p = store s ! p"
  unfolding extends_def by (metis nth_take)

lemma extends_trans: "extends s s1 \<Longrightarrow> extends s1 s2 \<Longrightarrow> extends s s2"
proof -
  assume a: "extends s s1" and b: "extends s1 s2"
  have "take (length (store s)) (store s2) = take (length (store s)) (take (length (store s1)) (store s2))"
    using extends_length [OF a] by (simp add: min_def)
  with a b show ?thesis by (simp add: extends_def)
qed

lemma extends_deref: "extends s s' \<Longrightarrow> deref s p = Inr a \<Longrightarrow> deref s' p = Inr a"
  using extends_length [of s s'] extends_nth [of s s' p]
  by (auto simp: deref_def split: if_splits)

lemma dict_copy_extends: "extends s (fst (dict_copy p s))"
  by (simp add: dict_copy_def extends_def split: sum.splits)

lemma dict_copy_result:
  "dict_copy p s = (s1, Inr q) \<Longrightarrow>
     q = length (store s) \<and> p < length (store s) \<and> s1 = s\<lparr>store := store s @ [store s ! p]\<rparr>"
  by (auto simp: dict_copy_def deref_def split: sum.splits if_splits)

lemma dict_setitem_new:
  "dict_copy p s = (s1, Inr q) \<Longrightarrow> dict_setitem q var w s1 = (s2, r) \<Longrightarrow>
     extends s s2 \<and> r = Inr () \<and> deref s2 q = Inr (AList.update var w (store s ! p))"
  by (auto simp: dict_copy_def dict_setitem_def deref_def extends_def split: sum.splits if_splits)

lemma backtrack_extends_partial:
  "backtrack_backtrack_loop_dom (Inl (cw, p, s)) \<Longrightarrow> extends s (fst (backtrack cw p s))"
  "backtrack_backtrack_loop_dom (Inr (cw, p, var, vals, s)) \<Longrightarrow>
     extends s (fst (backtrack_loop cw p var vals s))"
proof (induct rule: backtrack_backtrack_loop.pinduct)
  case (1 cw p s)
  show ?case
  proof (cases "assignment_complete cw p s")
    case ac: (Pair s1 r1)
    then have s1: "s1 = s" using assignment_complete_state [of cw p s] by simp
    show ?thesis
    proof (cases r1)
      case (Inl e)
      with ac s1 1(1) show ?thesis by (simp add: backtrack.psimps extends_refl)
    next
      case (Inr complete)
      show ?thesis
      proof (cases complete)
        case True
        with ac s1 Inr 1(1) show ?thesis by (simp add: backtrack.psimps extends_refl)
      next
        case False
        show ?thesis
        proof (cases "select_unassigned_variable cw p s")
          case sel: (Pair s2 r2)
          then have s2: "s2 = s" using select_unassigned_variable_state [of cw p s] by simp
          show ?thesis
          proof (cases r2)
            case (Inl e)
            with ac s1 Inr False sel s2 1(1) show ?thesis
              by (simp add: backtrack.psimps extends_refl)
          next
            case var: (Inr var)
            show ?thesis
            proof (cases "order_domain_values cw var p s")
              case ord: (Pair s3 r3)
              then have s3: "s3 = s" using order_domain_values_state [of cw var p s] by simp
              show ?thesis
              proof (cases r3)
                case (Inl e)
                with ac s1 Inr False sel s2 var ord s3 1(1) show ?thesis
                  by (simp add: backtrack.psimps extends_refl)
              next
                case vals: (Inr vals)
                have "extends s (fst (backtrack_loop cw p var vals s))"
                  using 1(2) [of s r1 complete s r2 var s r3 vals]
                    ac s1 Inr False sel s2 var ord s3 vals by simp
                with ac s1 Inr False sel s2 var ord s3 vals 1(1) show ?thesis
                  by (simp add: backtrack.psimps)
              qed
            qed
          qed
        qed
      qed
    qed
  qed
next
  case (2 cw p var s)
  then show ?case by (simp add: backtrack_loop.psimps extends_refl)
next
  case (3 cw p var "value" rest s)
  show ?case
  proof (cases "dict_copy p s")
    case cp: (Pair s1 r1)
    show ?thesis
    proof (cases r1)
      case (Inl e)
      with cp 3(1) dict_copy_extends [of s p] show ?thesis
        by (simp add: backtrack_loop.psimps)
    next
      case q: (Inr q)
      obtain s2 r2 where st: "dict_setitem q var value s1 = (s2, r2)" by fastforce
      from dict_setitem_new [OF cp [unfolded q] st]
      have e2: "extends s s2" and r2: "r2 = Inr ()" by simp_all
      obtain s3 r3 where co: "consistent cw q s2 = (s3, r3)" by fastforce
      then have s3: "s3 = s2" using consistent_state [of cw q s2] by simp
      show ?thesis
      proof (cases r3)
        case (Inl e)
        with cp q st r2 co s3 e2 3(1) show ?thesis
          by (simp add: backtrack_loop.psimps)
      next
        case ok: (Inr ok)
        show ?thesis
        proof (cases ok)
          case False
          have "extends s2 (fst (backtrack_loop cw p var rest s2))"
            using 3(4) [of s1 r1 q s2 r2 "()" s2 r3 ok] cp q st r2 co s3 ok False by simp
          with e2 have "extends s (fst (backtrack_loop cw p var rest s2))"
            by (rule extends_trans)
          with cp q st r2 co s3 ok False 3(1) show ?thesis
            by (simp add: backtrack_loop.psimps)
        next
          case True
          have e4: "extends s2 (fst (backtrack cw q s2))"
            using 3(2) [of s1 r1 q s2 r2 "()" s2 r3 ok] cp q st r2 co s3 ok True by simp
          obtain s4 r4 where bt: "backtrack cw q s2 = (s4, r4)" by fastforce
          with e4 e2 have e4': "extends s s4" by (auto intro: extends_trans)
          show ?thesis
          proof (cases r4)
            case (Inl e)
            with cp q st r2 co s3 ok True bt e4' 3(1) show ?thesis
              by (simp add: backtrack_loop.psimps)
          next
            case res: (Inr res)
            show ?thesis
            proof (cases res)
              case (Some r)
              with cp q st r2 co s3 ok True bt e4' res 3(1) show ?thesis
                by (simp add: backtrack_loop.psimps)
            next
              case None
              have "extends s4 (fst (backtrack_loop cw p var rest s4))"
                using 3(3) [of s1 r1 q s2 r2 "()" s2 r3 ok s4 r4 res]
                  cp q st r2 co s3 ok True bt res None by simp
              with e4' have "extends s (fst (backtrack_loop cw p var rest s4))"
                by (rule extends_trans)
              with cp q st r2 co s3 ok True bt res None 3(1) show ?thesis
                by (simp add: backtrack_loop.psimps)
            qed
          qed
        qed
      qed
    qed
  qed
qed


text \<open>The number of variables an assignment leaves open bounds the depth of the search.\<close>

definition open_vars :: "crossword \<Rightarrow> assignment \<Rightarrow> variable set" where
  "open_vars cw a = set (variables cw) - fst ` set a"

lemma fst_set_update: "fst ` set (AList.update k v a) = insert k (fst ` set a)"
  by (induction a) auto

termination backtrack
proof (relation "inv_image (less_than <*lex*> less_than)
    (\<lambda>x. case x of
       Inl (cw, p, s) \<Rightarrow> (2 * card (open_vars cw (store s ! p)) + 1, 0)
     | Inr (cw, p, var, vals, s) \<Rightarrow>
         (2 * card (open_vars cw (store s ! p) - {var}) + 2, length vals))", goal_cases)
  case 1
  show ?case by (intro wf_inv_image wf_lex_prod wf_less_than)
next
  case (2 cw p s s1 r1 complete s2 r2 var s3 r3 vals)
  have s1: "s1 = s" using 2 assignment_complete_state [of cw p s] by (metis fst_conv)
  have s2: "s2 = s" using 2 s1 select_unassigned_variable_state [of cw p s] by (metis fst_conv)
  have s3: "s3 = s" using 2 s2 order_domain_values_state [of cw var p s] by (metis fst_conv)
  have "select_unassigned_variable cw p s = (s, Inr var)" using 2 s1 s2 by simp
  from select_unassigned_variable_sound [OF this]
  have "var \<in> open_vars cw (store s ! p)"
    by (auto simp: open_vars_def deref_def split: if_splits)
  moreover have "finite (open_vars cw (store s ! p))" by (simp add: open_vars_def)
  ultimately have "card (open_vars cw (store s ! p) - {var}) < card (open_vars cw (store s ! p))"
    by (meson card_Diff1_less)
  with s3 show ?case by simp
next
  case (3 cw p var "value" rest s s1 r1 q s2 r2 u s3 r3 ok)
  have cp: "dict_copy p s = (s1, Inr q)" using 3 by simp
  have st: "dict_setitem q var value s1 = (s2, r2)" using 3 by simp
  have s3: "s3 = s2" using 3 consistent_state [of cw q s2] by (metis fst_conv)
  from dict_setitem_new [OF cp st]
  have "store s2 ! q = AList.update var value (store s ! p)"
    by (auto simp: deref_def split: if_splits)
  then have "open_vars cw (store s3 ! q) = open_vars cw (store s ! p) - {var}"
    using s3 by (auto simp: open_vars_def fst_set_update)
  then show ?case by simp
next
  case (4 cw p var "value" rest s s1 r1 q s2 r2 u s3 r3 ok s4 r4 res)
  have cp: "dict_copy p s = (s1, Inr q)" using 4 by simp
  have st: "dict_setitem q var value s1 = (s2, r2)" using 4 by simp
  have s3: "s3 = s2" using 4 consistent_state [of cw q s2] by (metis fst_conv)
  have "extends s3 (fst (backtrack cw q s3))" using 4 backtrack_extends_partial(1) by simp
  moreover have "fst (backtrack cw q s3) = s4" using 4 by (metis fst_conv)
  moreover have "extends s s2" using dict_setitem_new [OF cp st] by simp
  ultimately have "extends s s4" using s3 by (auto intro: extends_trans)
  moreover have "p < length (store s)" using dict_copy_result [OF cp] by simp
  ultimately have "store s4 ! p = store s ! p" by (rule extends_nth)
  then show ?case by simp
next
  case (5 cw p var "value" rest s s1 r1 q s2 r2 u s3 r3 ok)
  have cp: "dict_copy p s = (s1, Inr q)" using 5 by simp
  have st: "dict_setitem q var value s1 = (s2, r2)" using 5 by simp
  have s3: "s3 = s2" using 5 consistent_state [of cw q s2] by (metis fst_conv)
  have "extends s s2" using dict_setitem_new [OF cp st] by simp
  moreover have "p < length (store s)" using dict_copy_result [OF cp] by simp
  ultimately have "store s2 ! p = store s ! p" by (rule extends_nth)
  with s3 show ?case by simp
qed



subsection \<open>The solver\<close>

definition solve :: "crossword \<Rightarrow> creator \<Rightarrow> creator \<times> (error + ref option)" where
  "solve cw s =
     (case enforce_node_consistency s of
        (s1, Inl e) \<Rightarrow> (s1, Inl e)
      | (s1, Inr _) \<Rightarrow>
          (case ac3 cw None s1 of
             (s2, Inl e) \<Rightarrow> (s2, Inl e)
           | (s2, Inr _) \<Rightarrow>
               (case dict_new s2 of
                  (s3, Inl e) \<Rightarrow> (s3, Inl e)
                | (s3, Inr p) \<Rightarrow> backtrack cw p s3)))"

subsection \<open>Example crosswords\<close>

text \<open>
  Two slots of length 3: \<open>across1\<close> in row 0 and \<open>down1\<close> in column 1, crossing in the
  cell that is letter 1 of the first and letter 0 of the second.
\<close>

definition across1 :: variable where "across1 = Variable 0 0 ACROSS 3"
definition down1 :: variable where "down1 = Variable 0 1 DOWN 3"

definition two_slots :: "string list \<Rightarrow> crossword" where
  "two_slots ws =
     \<lparr>variables = [across1, down1], words = ws,
      overlaps = (\<lambda>(u, v).
        if u = across1 \<and> v = down1 then Some (Some (1, 0))
        else if u = down1 \<and> v = across1 then Some (Some (0, 1))
        else None)\<rparr>"

text \<open>
  Three slots: \<open>top\<close> and \<open>bottom\<close>, of length 4, in rows 0 and 2, and \<open>middle\<close>, of
  length 3, down column 1, crossing both.
\<close>

definition top :: variable where "top = Variable 0 0 ACROSS 4"
definition bottom :: variable where "bottom = Variable 2 0 ACROSS 4"
definition middle :: variable where "middle = Variable 0 1 DOWN 3"

definition three_slots :: "string list \<Rightarrow> crossword" where
  "three_slots ws =
     \<lparr>variables = [top, bottom, middle], words = ws,
      overlaps = (\<lambda>(u, v).
        if u = top \<and> v = middle then Some (Some (1, 0))
        else if u = middle \<and> v = top then Some (Some (0, 1))
        else if u = bottom \<and> v = middle then Some (Some (1, 2))
        else if u = middle \<and> v = bottom then Some (Some (2, 1))
        else if u = top \<and> v = bottom then Some None
        else if u = bottom \<and> v = top then Some None
        else None)\<rparr>"

text \<open>The state in which \<^verbatim>\<open>solve\<close> calls \<^verbatim>\<open>backtrack\<close>.\<close>

definition propagated :: "crossword \<Rightarrow> creator" where
  "propagated cw = fst (dict_new (fst (ac3 cw None (fst (enforce_node_consistency (init cw))))))"


subsection \<open>Completeness of an assignment\<close>

text \<open>
  C10. \<^verbatim>\<open>assignment_complete\<close> answers \<^verbatim>\<open>True\<close> only if the keys of the assignment
  are exactly the variables of the crossword and no assigned word is the empty string;
  and an assignment with an empty word is reported incomplete, also when it binds every
  variable.
\<close>

theorem assignment_complete_true_only_if:
  assumes "deref s p = Inr a"
  shows "(snd (assignment_complete cw p s) = Inr True \<longrightarrow>
            fst ` set a = set (variables cw) \<and> [] \<notin> snd ` set a)
         \<and> ([] \<in> snd ` set a \<longrightarrow> assignment_complete cw p s = (s, Inr False))"
proof -
  have "list_all (\<lambda>word. word \<noteq> []) (map snd a) \<longleftrightarrow> [] \<notin> snd ` set a"
    by (induction a) auto
  with assms show ?thesis by (simp add: assignment_complete_def)
qed

theorem assignment_complete_witness:
  "deref \<lparr>domains = [], store = [[(across1, ''cat''), (down1, ''art'')]]\<rparr> 0 =
     Inr [(across1, ''cat''), (down1, ''art'')]
   \<and> snd (assignment_complete (two_slots [''cat'', ''art''])
             0 \<lparr>domains = [], store = [[(across1, ''cat''), (down1, ''art'')]]\<rparr>) = Inr True
   \<and> fst ` set [(across1, ''cat''), (down1, ''art'')] = set (variables (two_slots [''cat'', ''art'']))
   \<and> [] \<notin> snd ` set [(across1, ''cat''), (down1, ''art'')]
   \<and> deref \<lparr>domains = [], store = [[(across1, ''cat''), (down1, [])]]\<rparr> 0 =
     Inr [(across1, ''cat''), (down1, [])]
   \<and> [] \<in> snd ` set [(across1, ''cat''), (down1, [])]
   \<and> assignment_complete (two_slots [''cat'', ''art''])
         0 \<lparr>domains = [], store = [[(across1, ''cat''), (down1, [])]]\<rparr> =
       (\<lparr>domains = [], store = [[(across1, ''cat''), (down1, [])]]\<rparr>, Inr False)"
proof -
  let ?s1 = "\<lparr>domains = [], store = [[(across1, ''cat''), (down1, ''art'')]]\<rparr>"
  let ?s2 = "\<lparr>domains = [], store = [[(across1, ''cat''), (down1, [])]]\<rparr>"
  have d1: "deref ?s1 0 = Inr [(across1, ''cat''), (down1, ''art'')]"
    by (simp add: deref_def)
  have d2: "deref ?s2 0 = Inr [(across1, ''cat''), (down1, [])]"
    by (simp add: deref_def)
  have t: "snd (assignment_complete (two_slots [''cat'', ''art'']) 0 ?s1) = Inr True"
    by (auto simp: assignment_complete_def deref_def two_slots_def)
  have e: "[] \<in> snd ` set [(across1, ''cat''), (down1, [])]"
    by simp
  from assignment_complete_true_only_if [OF d1, of "two_slots [''cat'', ''art'']"] t
    assignment_complete_true_only_if [OF d2, of "two_slots [''cat'', ''art'']"] e d1 d2
  show ?thesis by blast
qed

subsection \<open>What \<^verbatim>\<open>revise\<close> and \<^verbatim>\<open>ac3\<close> hand back\<close>

text \<open>
  C3. \<^verbatim>\<open>revise\<close> is specified to hand back \<^verbatim>\<open>True\<close> when it removed a word. On the
  two crossing slots with the words cat, car, art and dog, after node consistency,
  \<^verbatim>\<open>revise(across1, down1)\<close> removes art and dog from the domain of \<open>across1\<close> (no
  word of \<open>down1\<close> starts with r or o) and hands back \<^verbatim>\<open>None\<close>.
\<close>

theorem revise_removes_and_returns_none:
  "getitem (domains (fst (enforce_node_consistency (init (two_slots [''cat'', ''car'', ''art'', ''dog''])))))
      across1 = Inr [''cat'', ''car'', ''art'', ''dog'']
   \<and> getitem (domains (fst (revise (two_slots [''cat'', ''car'', ''art'', ''dog'']) across1 down1
        (fst (enforce_node_consistency (init (two_slots [''cat'', ''car'', ''art'', ''dog''])))))))
      across1 = Inr [''cat'', ''car'']
   \<and> snd (revise (two_slots [''cat'', ''car'', ''art'', ''dog'']) across1 down1
        (fst (enforce_node_consistency (init (two_slots [''cat'', ''car'', ''art'', ''dog'']))))) =
      Inr PyNone"
  by code_simp

text \<open>
  C2. \<^verbatim>\<open>ac3\<close> is specified to hand back \<^verbatim>\<open>True\<close> exactly when no domain is empty at the
  end. On the two crossing slots with the words cat and dog, after node consistency, it
  empties both domains and hands back \<^verbatim>\<open>True\<close>: \<^verbatim>\<open>revise\<close> never reports a removal, so
  the test for an empty domain is never reached.
\<close>

theorem ac3_true_with_empty_domains:
  "ac3 (two_slots [''cat'', ''dog'']) None
       (fst (enforce_node_consistency (init (two_slots [''cat'', ''dog''])))) =
     (\<lparr>domains = [(across1, []), (down1, [])], store = []\<rparr>, Inr (PyBool True))"
  by code_simp

subsection \<open>Variable selection\<close>

text \<open>
  C5. \<^verbatim>\<open>select_unassigned_variable\<close> is specified to return a variable whose domain is
  smallest, the degree deciding among those tied. On the three slots with the words
  dogs, oho and ono, in the state in which \<^verbatim>\<open>solve\<close> starts the search, \<open>top\<close> and
  \<open>bottom\<close> have one word left and \<open>middle\<close> two; the method returns \<open>middle\<close>, the
  variable of highest degree among all unassigned ones.
\<close>

theorem select_returns_larger_domain:
  "deref (propagated (three_slots [''dogs'', ''oho'', ''ono''])) 0 = Inr []
   \<and> getitem (domains (propagated (three_slots [''dogs'', ''oho'', ''ono'']))) top = Inr [''dogs'']
   \<and> getitem (domains (propagated (three_slots [''dogs'', ''oho'', ''ono'']))) bottom = Inr [''dogs'']
   \<and> getitem (domains (propagated (three_slots [''dogs'', ''oho'', ''ono'']))) middle =
        Inr [''oho'', ''ono'']
   \<and> snd (select_unassigned_variable (three_slots [''dogs'', ''oho'', ''ono'']) 0
            (propagated (three_slots [''dogs'', ''oho'', ''ono'']))) = Inr middle"
  by code_simp

subsection \<open>Domains only shrink\<close>

text \<open>
  \<open>shrinks s s'\<close>: \<^verbatim>\<open>self.domains\<close> has the same keys in \<open>s'\<close> as in \<open>s\<close>, and the domain
  of every variable in \<open>s'\<close> is a subset of its domain in \<open>s\<close>.
\<close>

definition shrinks :: "creator \<Rightarrow> creator \<Rightarrow> bool" where
  "shrinks s s' \<longleftrightarrow>
     map fst (domains s') = map fst (domains s)
     \<and> (\<forall>v d d'. getitem (domains s) v = Inr d \<longrightarrow> getitem (domains s') v = Inr d' \<longrightarrow>
           set d' \<subseteq> set d)"

lemma shrinksI:
  assumes "map fst (domains s') = map fst (domains s)"
    and "\<And>v d d'. getitem (domains s) v = Inr d \<Longrightarrow> getitem (domains s') v = Inr d' \<Longrightarrow>
           set d' \<subseteq> set d"
  shows "shrinks s s'"
  unfolding shrinks_def using assms by blast

lemma shrinks_keys: "shrinks s s' \<Longrightarrow> map fst (domains s') = map fst (domains s)"
  unfolding shrinks_def by (erule conjunct1)

lemma shrinks_subset:
  "shrinks s s' \<Longrightarrow> getitem (domains s) v = Inr d \<Longrightarrow> getitem (domains s') v = Inr d' \<Longrightarrow>
     set d' \<subseteq> set d"
  unfolding shrinks_def by blast

lemma shrinks_refl: "shrinks s s"
  by (rule shrinksI) simp_all

lemma getitem_keys: "(\<exists>d. getitem al k = Inr d) \<longleftrightarrow> k \<in> fst ` set al"
proof (cases "map_of al k")
  case None
  then have "k \<notin> fst ` set al" by (simp add: map_of_eq_None_iff)
  with None show ?thesis by (simp add: getitem_def)
next
  case (Some v)
  then have "(k, v) \<in> set al" by (rule map_of_SomeD)
  then have "k \<in> fst ` set al" by force
  with Some show ?thesis by (simp add: getitem_def)
qed

lemma shrinks_trans:
  assumes "shrinks s s1" and "shrinks s1 s2"
  shows "shrinks s s2"
proof (rule shrinksI)
  show "map fst (domains s2) = map fst (domains s)"
    using shrinks_keys [OF assms(2)] shrinks_keys [OF assms(1)] by (rule trans)
next
  fix v d d2
  assume d: "getitem (domains s) v = Inr d" and d2: "getitem (domains s2) v = Inr d2"
  from d have "\<exists>d. getitem (domains s) v = Inr d" by (rule exI)
  then have "v \<in> fst ` set (domains s)" by (simp only: getitem_keys)
  then have "v \<in> set (map fst (domains s))" by simp
  then have "v \<in> set (map fst (domains s1))" by (simp only: shrinks_keys [OF assms(1)])
  then have "v \<in> fst ` set (domains s1)" by simp
  then have "\<exists>d. getitem (domains s1) v = Inr d" by (simp only: getitem_keys)
  then obtain d1 where d1: "getitem (domains s1) v = Inr d1" by (rule exE)
  have "set d1 \<subseteq> set d" using assms(1) d d1 by (rule shrinks_subset)
  moreover have "set d2 \<subseteq> set d1" using assms(2) d1 d2 by (rule shrinks_subset)
  ultimately show "set d2 \<subseteq> set d" by simp
qed

lemma getitem_update:
  "getitem (AList.update k v al) k' = (if k' = k then Inr v else getitem al k')"
  by (simp add: getitem_def update_conv')

lemma shrinks_update:
  assumes "getitem (domains s) x = Inr d" and "set d' \<subseteq> set d"
  shows "shrinks s (s\<lparr>domains := AList.update x d' (domains s)\<rparr>)"
proof -
  from assms(1) have "\<exists>d. getitem (domains s) x = Inr d" by (rule exI)
  then have "x \<in> fst ` set (domains s)" by (simp only: getitem_keys)
  then have "map fst (AList.update x d' (domains s)) = map fst (domains s)"
    by (simp add: update_keys)
  show ?thesis
  proof (rule shrinksI)
    show "map fst (domains (s\<lparr>domains := AList.update x d' (domains s)\<rparr>)) = map fst (domains s)"
      using \<open>map fst (AList.update x d' (domains s)) = map fst (domains s)\<close> by simp
  next
    fix v e e'
    assume "getitem (domains s) v = Inr e"
      and "getitem (domains (s\<lparr>domains := AList.update x d' (domains s)\<rparr>)) v = Inr e'"
    with assms show "set e' \<subseteq> set e"
      by (cases "v = x") (simp_all add: getitem_update)
  qed
qed

lemma remove_words_subset: "set (fst (remove_words ws d)) \<subseteq> set d"
proof (induction ws arbitrary: d)
  case Nil
  show ?case by simp
next
  case (Cons x ws)
  show ?case
  proof (cases "x \<in> set d")
    case True
    have "set (fst (remove_words ws (removeAll x d))) \<subseteq> set (removeAll x d)"
      by (rule Cons.IH)
    also have "\<dots> \<subseteq> set d" by auto
    finally show ?thesis using True by simp
  next
    case False
    then show ?thesis by simp
  qed
qed

lemma enforce_loop_shrinks: "shrinks s (fst (enforce_loop vs s))"
proof (induction vs arbitrary: s)
  case Nil
  show ?case by (simp add: shrinks_refl)
next
  case (Cons v vs)
  show ?case
  proof (cases "getitem (domains s) v")
    case (Inl e)
    then show ?thesis by (simp add: shrinks_refl)
  next
    case (Inr d)
    obtain d' r where rw: "remove_words (wrong_length_words v d []) d = (d', r)"
      by fastforce
    then have "set d' \<subseteq> set d" using remove_words_subset by (metis fst_conv)
    with Inr have step: "shrinks s (s\<lparr>domains := AList.update v d' (domains s)\<rparr>)"
      by (rule shrinks_update)
    show ?thesis
    proof (cases r)
      case (Inl e)
      with Inr rw step show ?thesis by simp
    next
      case (Inr u)
      with \<open>getitem (domains s) v = Inr d\<close> rw
        shrinks_trans [OF step Cons.IH [of "s\<lparr>domains := AList.update v d' (domains s)\<rparr>"]]
      show ?thesis by simp
    qed
  qed
qed

lemma revise_shrinks: "shrinks s (fst (revise cw x y s))"
proof (cases "overlaps cw (x, y)")
  case None
  then show ?thesis by (simp add: revise_def shrinks_refl)
next
  case (Some ov)
  show ?thesis
  proof (cases ov)
    case None
    with Some show ?thesis by (simp add: revise_def shrinks_refl)
  next
    case (Some kl)
    obtain k l where kl: "kl = (k, l)" by (cases kl)
    show ?thesis
    proof (cases "getitem (domains s) x")
      case (Inl e)
      with \<open>overlaps cw (x, y) = Some ov\<close> Some kl show ?thesis
        by (simp add: revise_def shrinks_refl)
    next
      case (Inr dx)
      show ?thesis
      proof (cases "revise_scan k l (getitem (domains s) y) dx []")
        case (Inl e)
        with \<open>overlaps cw (x, y) = Some ov\<close> Some kl Inr show ?thesis
          by (simp add: revise_def shrinks_refl)
      next
        case scan: (Inr ws)
        obtain dx' r where rw: "remove_words ws dx = (dx', r)" by fastforce
        then have "set dx' \<subseteq> set dx" using remove_words_subset by (metis fst_conv)
        with Inr have "shrinks s (s\<lparr>domains := AList.update x dx' (domains s)\<rparr>)"
          by (rule shrinks_update)
        with \<open>overlaps cw (x, y) = Some ov\<close> Some kl Inr scan rw show ?thesis
          by (cases r) (simp_all add: revise_def)
      qed
    qed
  qed
qed

lemma ac3_loop_shrinks: "shrinks s (fst (ac3_loop cw queue s))"
proof (induction cw queue s rule: ac3_loop.induct)
  case (1 cw s)
  show ?case by (simp add: shrinks_refl)
next
  case (2 cw x y queue s)
  obtain s1 r where rv: "revise cw x y s = (s1, r)" by fastforce
  then have s1: "shrinks s s1" using revise_shrinks [of s cw x y] by simp
  show ?case
  proof (cases r)
    case (Inl e)
    with rv s1 show ?thesis by simp
  next
    case (Inr v)
    then have "snd (revise cw x y s) = Inr v" using rv by simp
    then have v: "v = PyNone" by (rule revise_value)
    have "shrinks s1 (fst (ac3_loop cw queue s1))"
      using "2.IH"(2) [of s1 r v] rv Inr v by simp
    with s1 have "shrinks s (fst (ac3_loop cw queue s1))" by (rule shrinks_trans)
    with rv Inr v show ?thesis by simp
  qed
qed

text \<open>
  C7. After a run of \<^verbatim>\<open>enforce_node_consistency\<close>, of \<^verbatim>\<open>revise\<close> or of \<^verbatim>\<open>ac3\<close>,
  whatever its outcome, every variable's domain is a subset of what it was before.
\<close>

theorem domains_only_shrink:
  "shrinks s (fst (enforce_node_consistency s))
   \<and> shrinks s (fst (revise cw x y s))
   \<and> shrinks s (fst (ac3 cw arcs s))"
proof -
  have "shrinks s (fst (ac3 cw arcs s))"
    by (auto simp: ac3_def shrinks_refl ac3_loop_shrinks split: option.splits sum.splits)
  then show ?thesis
    by (simp add: enforce_node_consistency_def enforce_loop_shrinks revise_shrinks)
qed

theorem domains_only_shrink_witness:
  "getitem (domains (init (two_slots [''cat'', ''go'', ''art'']))) across1 = Inr [''cat'', ''go'', ''art'']
   \<and> getitem (domains (fst (enforce_node_consistency (init (two_slots [''cat'', ''go'', ''art''])))))
        across1 = Inr [''cat'', ''art'']
   \<and> set [''cat'', ''art''] \<subseteq> set [''cat'', ''go'', ''art'']"
proof -
  let ?s = "init (two_slots [''cat'', ''go'', ''art''])"
  have a: "getitem (domains ?s) across1 = Inr [''cat'', ''go'', ''art'']"
    by code_simp
  have b: "getitem (domains (fst (enforce_node_consistency ?s))) across1 = Inr [''cat'', ''art'']"
    by code_simp
  from domains_only_shrink [of ?s] have "shrinks ?s (fst (enforce_node_consistency ?s))"
    by simp
  then have "set [''cat'', ''art''] \<subseteq> set [''cat'', ''go'', ''art'']"
    using a b by (rule shrinks_subset)
  with a b show ?thesis by simp
qed

subsection \<open>The consistency check\<close>

text \<open>
  Two words agree at the overlap of their slots: the overlap table has a pair of positions
  for the two slots, both positions exist in the words, and the characters there are equal.
\<close>

definition agree :: "crossword \<Rightarrow> variable \<Rightarrow> string \<Rightarrow> variable \<Rightarrow> string \<Rightarrow> bool" where
  "agree cw v w n w' =
     (case overlaps cw (v, n) of
        Some (Some (k, l)) \<Rightarrow> k < length w \<and> l < length w' \<and> w ! k = w' ! l
      | _ \<Rightarrow> False)"

text \<open>
  The three constraints on a partial or complete assignment, in the words of the
  specification: the assigned words are pairwise distinct, each has the length of its slot,
  and each assigned slot agrees with each of its assigned neighbors.
\<close>

definition satisfies_constraints :: "crossword \<Rightarrow> assignment \<Rightarrow> bool" where
  "satisfies_constraints cw a \<longleftrightarrow>
     distinct (map snd a)
     \<and> (\<forall>(v, w) \<in> set a. int (length w) = var_length v)
     \<and> (\<forall>(v, w) \<in> set a. \<forall>(n, w') \<in> set a. n \<in> set (neighbors cw v) \<longrightarrow> agree cw v w n w')"

lemma getitem_distinct:
  "distinct (map fst al) \<Longrightarrow> (k, v) \<in> set al \<Longrightarrow> getitem al k = Inr v"
  by (simp add: getitem_def)

lemma getitem_in_set: "getitem al k = Inr v \<Longrightarrow> (k, v) \<in> set al"
  by (cases "map_of al k") (auto simp: getitem_def dest: map_of_SomeD)

lemma neighbor_loop_true:
  assumes "distinct (map fst a)" and "(v, w) \<in> set a"
  shows "neighbor_loop cw a v ns = Inr True \<longleftrightarrow>
           (\<forall>n \<in> set ns. \<forall>w'. (n, w') \<in> set a \<longrightarrow> agree cw v w n w')"
proof (induction ns)
  case Nil
  show ?case by simp
next
  case (Cons n ns)
  have gv: "getitem a v = Inr w" using assms by (rule getitem_distinct)
  show ?case
  proof (cases "n \<in> set (map fst a)")
    case False
    then have "\<And>w'. (n, w') \<notin> set a" by force
    with False Cons.IH show ?thesis by simp
  next
    case True
    then obtain w' where nw: "(n, w') \<in> set a" by auto
    have gn: "getitem a n = Inr w'" using assms(1) nw by (rule getitem_distinct)
    have uniq: "\<And>u. (n, u) \<in> set a \<Longrightarrow> u = w'"
      using assms(1) nw by (meson eq_key_imp_eq_value)
    have head: "(\<forall>u. (n, u) \<in> set a \<longrightarrow> agree cw v w n u) \<longleftrightarrow> agree cw v w n w'"
      using nw uniq by blast
    have step: "neighbor_loop cw a v (n # ns) =
        (if agree cw v w n w' then neighbor_loop cw a v ns
         else neighbor_loop cw a v (n # ns))"
      using True gv gn
      by (auto simp: agree_def py_index_def split: option.splits)
    have bad: "\<not> agree cw v w n w' \<Longrightarrow> neighbor_loop cw a v (n # ns) \<noteq> Inr True"
      using True gv gn
      by (auto simp: agree_def py_index_def split: option.splits)
    show ?thesis
    proof (cases "agree cw v w n w'")
      case True
      with step Cons.IH head show ?thesis by simp
    next
      case False
      with bad head show ?thesis by simp
    qed
  qed
qed

lemma consistent_loop_true:
  assumes "distinct (map fst a)" and "set vs \<subseteq> fst ` set a"
  shows "consistent_loop cw a vs = Inr True \<longleftrightarrow>
           (\<forall>v \<in> set vs. \<forall>w. (v, w) \<in> set a \<longrightarrow>
              int (length w) = var_length v
              \<and> (\<forall>n \<in> set (neighbors cw v). \<forall>w'. (n, w') \<in> set a \<longrightarrow> agree cw v w n w'))"
  using assms(2)
proof (induction vs)
  case Nil
  show ?case by simp
next
  case (Cons v vs)
  from Cons.prems have "v \<in> fst ` set a" by simp
  then obtain w where vw: "(v, w) \<in> set a" by force
  have gv: "getitem a v = Inr w" using assms(1) vw by (rule getitem_distinct)
  have uniq: "\<And>u. (v, u) \<in> set a \<Longrightarrow> u = w"
    using assms(1) vw by (meson eq_key_imp_eq_value)
  let ?ok = "int (length w) = var_length v
      \<and> (\<forall>n \<in> set (neighbors cw v). \<forall>w'. (n, w') \<in> set a \<longrightarrow> agree cw v w n w')"
  have head: "(\<forall>u. (v, u) \<in> set a \<longrightarrow> int (length u) = var_length v
      \<and> (\<forall>n \<in> set (neighbors cw v). \<forall>w'. (n, w') \<in> set a \<longrightarrow> agree cw v u n w')) \<longleftrightarrow> ?ok"
    using vw uniq by blast
  have IH: "consistent_loop cw a vs = Inr True \<longleftrightarrow>
           (\<forall>v \<in> set vs. \<forall>w. (v, w) \<in> set a \<longrightarrow>
              int (length w) = var_length v
              \<and> (\<forall>n \<in> set (neighbors cw v). \<forall>w'. (n, w') \<in> set a \<longrightarrow> agree cw v w n w'))"
    using Cons by simp
  have nl: "neighbor_loop cw a v (neighbors cw v) = Inr True \<longleftrightarrow>
      (\<forall>n \<in> set (neighbors cw v). \<forall>w'. (n, w') \<in> set a \<longrightarrow> agree cw v w n w')"
    using assms(1) vw by (rule neighbor_loop_true)
  have "consistent_loop cw a (v # vs) = Inr True \<longleftrightarrow> ?ok \<and> consistent_loop cw a vs = Inr True"
  proof (cases "int (length w) = var_length v")
    case False
    with gv show ?thesis by simp
  next
    case True
    show ?thesis
    proof (cases "neighbor_loop cw a v (neighbors cw v)")
      case (Inl e)
      with gv True nl show ?thesis by simp
    next
      case (Inr ok)
      with gv True nl show ?thesis by (cases ok) simp_all
    qed
  qed
  with IH head show ?case by simp
qed

lemma distinct_values_check:
  assumes "distinct (map fst a)"
  shows "length (remdups (map snd a)) = length (remdups (map fst a)) \<longleftrightarrow> distinct (map snd a)"
proof -
  have "length (remdups (map fst a)) = length (map snd a)"
    using assms by (simp add: distinct_remdups_id)
  then show ?thesis
    by (metis length_remdups_eq remdups_id_iff_distinct)
qed

lemma consistent_true:
  assumes "deref s p = Inr a" and "distinct (map fst a)"
  shows "snd (consistent cw p s) = Inr True \<longleftrightarrow> satisfies_constraints cw a"
proof -
  have loop: "consistent_loop cw a (map fst a) = Inr True \<longleftrightarrow>
      (\<forall>v \<in> set (map fst a). \<forall>w. (v, w) \<in> set a \<longrightarrow>
              int (length w) = var_length v
              \<and> (\<forall>n \<in> set (neighbors cw v). \<forall>w'. (n, w') \<in> set a \<longrightarrow> agree cw v w n w'))"
    using assms(2) by (rule consistent_loop_true) simp
  have spec: "(\<forall>v \<in> set (map fst a). \<forall>w. (v, w) \<in> set a \<longrightarrow>
              int (length w) = var_length v
              \<and> (\<forall>n \<in> set (neighbors cw v). \<forall>w'. (n, w') \<in> set a \<longrightarrow> agree cw v w n w'))
     \<longleftrightarrow> (\<forall>(v, w) \<in> set a. int (length w) = var_length v)
     \<and> (\<forall>(v, w) \<in> set a. \<forall>(n, w') \<in> set a. n \<in> set (neighbors cw v) \<longrightarrow> agree cw v w n w')"
    by fastforce
  show ?thesis
  proof (cases "distinct (map snd a)")
    case True
    with assms distinct_values_check [OF assms(2)] loop spec show ?thesis
      by (simp add: consistent_def satisfies_constraints_def)
  next
    case False
    with assms distinct_values_check [OF assms(2)] show ?thesis
      by (simp add: consistent_def satisfies_constraints_def)
  qed
qed

text \<open>
  C6. For an assignment, partial or complete, \<^verbatim>\<open>consistent\<close> answers \<^verbatim>\<open>True\<close> exactly
  when the three constraints hold of it, and it leaves the state as it found it.
\<close>

theorem consistent_iff_constraints:
  assumes "deref s p = Inr a" and "distinct (map fst a)"
  shows "(consistent cw p s = (s, Inr True) \<longleftrightarrow> satisfies_constraints cw a)
         \<and> fst (consistent cw p s) = s"
proof -
  have "consistent cw p s = (s, Inr True) \<longleftrightarrow> snd (consistent cw p s) = Inr True"
    using consistent_state [of cw p s] by (cases "consistent cw p s") auto
  with consistent_true [OF assms] consistent_state [of cw p s] show ?thesis by simp
qed

theorem consistent_iff_constraints_witness:
  "deref \<lparr>domains = [], store = [[(across1, ''cat''), (down1, ''art'')]]\<rparr> 0 =
     Inr [(across1, ''cat''), (down1, ''art'')]
   \<and> distinct (map fst [(across1, ''cat''), (down1, ''art'')])
   \<and> consistent (two_slots [''cat'', ''art'']) 0
        \<lparr>domains = [], store = [[(across1, ''cat''), (down1, ''art'')]]\<rparr> =
       (\<lparr>domains = [], store = [[(across1, ''cat''), (down1, ''art'')]]\<rparr>, Inr True)
   \<and> satisfies_constraints (two_slots [''cat'', ''art'']) [(across1, ''cat''), (down1, ''art'')]"
proof -
  let ?s = "\<lparr>domains = [], store = [[(across1, ''cat''), (down1, ''art'')]]\<rparr>"
  have d: "deref ?s 0 = Inr [(across1, ''cat''), (down1, ''art'')]"
    by (simp add: deref_def)
  have k: "distinct (map fst [(across1, ''cat''), (down1, ''art'')])"
    by (simp add: across1_def down1_def)
  have c: "consistent (two_slots [''cat'', ''art'']) 0 ?s = (?s, Inr True)"
    by code_simp
  from consistent_iff_constraints [OF d k, of "two_slots [''cat'', ''art'']"] c
  have "satisfies_constraints (two_slots [''cat'', ''art'']) [(across1, ''cat''), (down1, ''art'')]"
    by simp
  with d k c show ?thesis by simp
qed

subsection \<open>Value ordering: least constraining value first\<close>

definition words_of :: "(variable \<times> string list) list \<Rightarrow> variable \<Rightarrow> string list" where
  "words_of doms v = (case map_of doms v of None \<Rightarrow> [] | Some d \<Rightarrow> d)"

definition disagree :: "crossword \<Rightarrow> variable \<Rightarrow> string \<Rightarrow> variable \<Rightarrow> string \<Rightarrow> bool" where
  "disagree cw v w n w' =
     (case overlaps cw (v, n) of Some (Some (k, l)) \<Rightarrow> w ! k \<noteq> w' ! l | _ \<Rightarrow> False)"

text \<open>
  In the words of the specification: for a candidate word \<open>w\<close> of \<open>var\<close>, the number of
  pairs of an unassigned neighbor \<open>n\<close> and a word \<open>w'\<close> of its domain whose characters
  at the overlap differ.
\<close>

definition eliminated ::
  "crossword \<Rightarrow> (variable \<times> string list) list \<Rightarrow> assignment \<Rightarrow> variable \<Rightarrow> string \<Rightarrow> int" where
  "eliminated cw doms a var w =
     int (length [(n, w'). n \<leftarrow> neighbors cw var, n \<notin> fst ` set a,
                           w' \<leftarrow> words_of doms n, disagree cw var w n w'])"

text \<open>The same count for a given list of neighbors.\<close>

definition eliminated_among ::
  "crossword \<Rightarrow> (variable \<times> string list) list \<Rightarrow> assignment \<Rightarrow> variable \<Rightarrow> string \<Rightarrow>
   variable list \<Rightarrow> int" where
  "eliminated_among cw doms a var w ns =
     int (length [(n, w'). n \<leftarrow> ns, n \<notin> fst ` set a,
                           w' \<leftarrow> words_of doms n, disagree cw var w n w'])"

lemma eliminated_among_Nil: "eliminated_among cw doms a var w [] = 0"
  by (simp add: eliminated_among_def)

lemma eliminated_among_Cons:
  "eliminated_among cw doms a var w (n # ns) =
     (if n \<notin> fst ` set a
      then int (length (filter (disagree cw var w n) (words_of doms n))) else 0)
     + eliminated_among cw doms a var w ns"
proof -
  have "length (concat (map (\<lambda>w'. if disagree cw var w n w' then [(n, w')] else []) ws)) =
        length (filter (disagree cw var w n) ws)" for ws
    by (induction ws) simp_all
  then show ?thesis by (simp add: eliminated_among_def)
qed

lemma eliminated_eq: "eliminated cw doms a var w = eliminated_among cw doms a var w (neighbors cw var)"
  by (simp add: eliminated_def eliminated_among_def)

text \<open>
  What the three nested loops do to \<^verbatim>\<open>num_eliminated\<close>: \<open>bump w c\<close> adds \<open>c\<close> to the
  entry of \<open>w\<close>.
\<close>

definition bump :: "string \<Rightarrow> int \<Rightarrow> (string \<times> int) list \<Rightarrow> (string \<times> int) list" where
  "bump w c ne = map (\<lambda>(x, n). if x = w then (x, n + c) else (x, n)) ne"

lemma bump_zero: "bump w 0 ne = ne"
  by (induction ne) (auto simp: bump_def)

lemma bump_bump: "bump w c (bump w c' ne) = bump w (c' + c) ne"
  by (induction ne) (auto simp: bump_def)

lemma bump_keys: "map fst (bump w c ne) = map fst ne"
  by (induction ne) (auto simp: bump_def)

lemma update_is_bump:
  "distinct (map fst ne) \<Longrightarrow> getitem ne w = Inr n \<Longrightarrow> AList.update w (n + c) ne = bump w c ne"
proof (induction ne)
  case Nil
  then show ?case by (simp add: getitem_def)
next
  case (Cons e ne)
  obtain x m where e: "e = (x, m)" by (cases e)
  show ?case
  proof (cases "x = w")
    case True
    with Cons.prems e have "m = n" by (simp add: getitem_def)
    moreover from Cons.prems e True have "w \<notin> fst ` set ne" by simp
    then have "bump w c ne = ne" by (induction ne) (auto simp: bump_def)
    ultimately show ?thesis using e True by (simp add: bump_def)
  next
    case False
    with Cons.prems e have "getitem ne w = Inr n" by (simp add: getitem_def)
    with Cons e False show ?thesis by (simp add: bump_def)
  qed
qed

lemma count_loop_bump:
  assumes "count_loop k l wordV wordsN ne = Inr ne'" and "distinct (map fst ne)"
  shows "ne' = bump wordV (int (length (filter (\<lambda>wordN. wordV ! k \<noteq> wordN ! l) wordsN))) ne"
  using assms
proof (induction wordsN arbitrary: ne)
  case Nil
  then show ?case by (simp add: bump_zero)
next
  case (Cons wordN rest)
  from Cons.prems(1) have kv: "k < length wordV" and ln: "l < length wordN"
    by (auto simp: py_index_def split: if_splits)
  show ?case
  proof (cases "wordV ! k \<noteq> wordN ! l")
    case False
    with Cons.prems kv ln have "count_loop k l wordV rest ne = Inr ne'"
      by (simp add: py_index_def)
    from Cons.IH [OF this Cons.prems(2)] False show ?thesis by simp
  next
    case True
    with Cons.prems kv ln obtain n where n: "getitem ne wordV = Inr n"
      and rec: "count_loop k l wordV rest (AList.update wordV (n + 1) ne) = Inr ne'"
      by (cases "getitem ne wordV") (simp_all add: py_index_def)
    have upd: "AList.update wordV (n + 1) ne = bump wordV 1 ne"
      using Cons.prems(2) n by (rule update_is_bump)
    have "distinct (map fst (bump wordV 1 ne))"
      using Cons.prems(2) by (simp add: bump_keys)
    from Cons.IH [OF rec [unfolded upd] this] True show ?thesis
      by (simp add: bump_bump)
  qed
qed

lemma neighbor_count_loop_bump:
  assumes "neighbor_count_loop cw doms a var wordV ns ne = Inr ne'" and "distinct (map fst ne)"
  shows "ne' = bump wordV (eliminated_among cw doms a var wordV ns) ne"
  using assms
proof (induction ns arbitrary: ne)
  case Nil
  then show ?case by (simp add: eliminated_among_Nil bump_zero)
next
  case (Cons n ns)
  show ?case
  proof (cases "n \<in> fst ` set a")
    case True
    with Cons.prems have "neighbor_count_loop cw doms a var wordV ns ne = Inr ne'"
      by simp
    from Cons.IH [OF this Cons.prems(2)] True show ?thesis
      by (simp add: eliminated_among_Cons)
  next
    case False
    from Cons.prems(1) False obtain k l where ov: "overlaps cw (var, n) = Some (Some (k, l))"
      by (cases "overlaps cw (var, n)") (auto split: option.splits)
    from Cons.prems(1) False ov obtain wordsN where dn: "getitem doms n = Inr wordsN"
      by (cases "getitem doms n") simp_all
    from Cons.prems(1) False ov dn obtain ne1
      where c: "count_loop k l wordV wordsN ne = Inr ne1"
        and rec: "neighbor_count_loop cw doms a var wordV ns ne1 = Inr ne'"
      by (cases "count_loop k l wordV wordsN ne") simp_all
    have ne1: "ne1 = bump wordV (int (length (filter (\<lambda>wordN. wordV ! k \<noteq> wordN ! l) wordsN))) ne"
      using c Cons.prems(2) by (rule count_loop_bump)
    have d1: "distinct (map fst ne1)" using Cons.prems(2) ne1 by (simp add: bump_keys)
    have w: "words_of doms n = wordsN"
      using dn by (cases "map_of doms n") (simp_all add: getitem_def words_of_def)
    have dis: "disagree cw var wordV n = (\<lambda>wordN. wordV ! k \<noteq> wordN ! l)"
      using ov by (simp add: disagree_def fun_eq_iff)
    from Cons.IH [OF rec d1] ne1 False w dis show ?thesis
      by (simp add: eliminated_among_Cons bump_bump)
  qed
qed

text \<open>After the loop over the words \<open>ws\<close>, the entry of each of them has grown by its count.\<close>

lemma eliminated_loop_entries:
  assumes "eliminated_loop cw doms a var ws ne = Inr ne'"
    and "distinct (map fst ne)" and "distinct ws"
  shows "map fst ne' = map fst ne
         \<and> (\<forall>(w, n') \<in> set ne'. \<exists>n. (w, n) \<in> set ne
               \<and> n' = (if w \<in> set ws then n + eliminated cw doms a var w else n))"
  using assms
proof (induction ws arbitrary: ne)
  case Nil
  then show ?case by auto
next
  case (Cons wordV rest)
  from Cons.prems(1) obtain ne1
    where n1: "neighbor_count_loop cw doms a var wordV (neighbors cw var) ne = Inr ne1"
      and rec: "eliminated_loop cw doms a var rest ne1 = Inr ne'"
    by (cases "neighbor_count_loop cw doms a var wordV (neighbors cw var) ne") simp_all
  have ne1: "ne1 = bump wordV (eliminated cw doms a var wordV) ne"
    using neighbor_count_loop_bump [OF n1 Cons.prems(2)] by (simp add: eliminated_eq)
  have d1: "distinct (map fst ne1)" using Cons.prems(2) ne1 by (simp add: bump_keys)
  from Cons.prems(3) have dr: "distinct rest" and nin: "wordV \<notin> set rest" by simp_all
  from Cons.IH [OF rec d1 dr]
  have keys: "map fst ne' = map fst ne1"
    and ent: "\<And>w n'. (w, n') \<in> set ne' \<Longrightarrow> \<exists>n. (w, n) \<in> set ne1
               \<and> n' = (if w \<in> set rest then n + eliminated cw doms a var w else n)"
    by auto
  have step: "\<exists>n. (w, n) \<in> set ne
               \<and> n' = (if w \<in> set (wordV # rest) then n + eliminated cw doms a var w else n)"
    if "(w, n') \<in> set ne'" for w n'
  proof -
    from ent [OF that] obtain n1 where a1: "(w, n1) \<in> set ne1"
      and b1: "n' = (if w \<in> set rest then n1 + eliminated cw doms a var w else n1)"
      by blast
    from a1 ne1 obtain n where a0: "(w, n) \<in> set ne"
      and b0: "n1 = (if w = wordV then n + eliminated cw doms a var wordV else n)"
      by (auto simp: bump_def split: if_splits)
    from b1 b0 nin have "n' = (if w \<in> set (wordV # rest) then n + eliminated cw doms a var w else n)"
      by auto
    with a0 show ?thesis by blast
  qed
  from keys ne1 have "map fst ne' = map fst ne" by (simp add: bump_keys)
  with step show ?case by blast
qed

lemma fold_update_zero:
  "distinct ws \<Longrightarrow> set ws \<inter> fst ` set acc = {} \<Longrightarrow>
     fold (\<lambda>word. AList.update word (0::int)) ws acc = acc @ map (\<lambda>w. (w, 0)) ws"
proof (induction ws arbitrary: acc)
  case Nil
  show ?case by simp
next
  case (Cons w ws)
  from Cons.prems have "w \<notin> fst ` set acc" by auto
  then have u: "AList.update w (0::int) acc = acc @ [(w, 0)]"
    by (induction acc) auto
  from Cons.prems have "set ws \<inter> fst ` set (acc @ [(w, 0)]) = {}" by auto
  with Cons.IH [of "acc @ [(w, 0)]"] Cons.prems(1) u show ?case by simp
qed


subsection \<open>Well-formed inputs\<close>

text \<open>
  What the specification says of the overlap table: it has an entry for every ordered pair
  of distinct variables of the crossword, the entries of a pair and of its reverse hold the
  same two positions, swapped, and each position lies within the length of its slot.
\<close>

definition wf_crossword :: "crossword \<Rightarrow> bool" where
  "wf_crossword cw \<longleftrightarrow>
     (\<forall>u \<in> set (variables cw). \<forall>v \<in> set (variables cw). u \<noteq> v \<longrightarrow> overlaps cw (u, v) \<noteq> None)
     \<and> (\<forall>u v k l. overlaps cw (u, v) = Some (Some (k, l)) \<longrightarrow>
           overlaps cw (v, u) = Some (Some (l, k))
           \<and> int k < var_length u \<and> int l < var_length v)"

text \<open>
  The domains are node consistent: \<^verbatim>\<open>self.domains\<close> has a domain for exactly the
  variables of the crossword and every word in a domain has the length of its slot.
\<close>

definition node_consistent :: "crossword \<Rightarrow> creator \<Rightarrow> bool" where
  "node_consistent cw s \<longleftrightarrow>
     fst ` set (domains s) = set (variables cw)
     \<and> (\<forall>v d. getitem (domains s) v = Inr d \<longrightarrow> (\<forall>w \<in> set d. int (length w) = var_length v))"

lemma neighbors_overlap:
  assumes "wf_crossword cw" and "n \<in> set (neighbors cw var)"
  shows "n \<in> set (variables cw) \<and> n \<noteq> var
         \<and> (\<exists>k l. overlaps cw (var, n) = Some (Some (k, l))
                \<and> int k < var_length var \<and> int l < var_length n)"
proof -
  from assms(2) have n: "n \<in> set (variables cw)" "n \<noteq> var"
    by (simp_all add: neighbors_def)
  from assms(2) obtain k l where "overlaps cw (n, var) = Some (Some (l, k))"
    by (auto simp: neighbors_def split: option.splits)
  with assms(1) have "overlaps cw (var, n) = Some (Some (k, l))
      \<and> int l < var_length n \<and> int k < var_length var"
    unfolding wf_crossword_def by blast
  with n show ?thesis by blast
qed

lemma node_consistent_domain:
  assumes "node_consistent cw s" and "v \<in> set (variables cw)"
  shows "\<exists>d. getitem (domains s) v = Inr d \<and> (\<forall>w \<in> set d. int (length w) = var_length v)"
proof -
  from assms have "v \<in> fst ` set (domains s)" by (simp add: node_consistent_def)
  then have "\<exists>d. getitem (domains s) v = Inr d" by (simp only: getitem_keys)
  then obtain d where d: "getitem (domains s) v = Inr d" by (rule exE)
  with assms(1) have "\<forall>w \<in> set d. int (length w) = var_length v"
    unfolding node_consistent_def by blast
  with d show ?thesis by blast
qed

lemma count_loop_total:
  assumes "k < length wordV" and "\<forall>wordN \<in> set wordsN. l < length wordN"
    and "wordV \<in> fst ` set ne"
  shows "\<exists>ne'. count_loop k l wordV wordsN ne = Inr ne'"
  using assms(2,3)
proof (induction wordsN arbitrary: ne)
  case Nil
  show ?case by simp
next
  case (Cons wordN rest)
  from Cons.prems(2) have "\<exists>n. getitem ne wordV = Inr n" by (simp only: getitem_keys)
  then obtain n where n: "getitem ne wordV = Inr n" by (rule exE)
  have "wordV \<in> fst ` set (AList.update wordV (n + 1) ne)" by (simp add: fst_set_update)
  with Cons.IH [of "AList.update wordV (n + 1) ne"] Cons.prems(1)
  have a: "\<exists>ne'. count_loop k l wordV rest (AList.update wordV (n + 1) ne) = Inr ne'" by simp
  from Cons.IH [of ne] Cons.prems
  have b: "\<exists>ne'. count_loop k l wordV rest ne = Inr ne'" by simp
  from a b n assms(1) Cons.prems(1) show ?case by (simp add: py_index_def)
qed

lemma neighbor_count_loop_total:
  assumes "wf_crossword cw" and "node_consistent cw s"
    and "int (length wordV) = var_length var"
    and "set ns \<subseteq> set (neighbors cw var)"
    and "wordV \<in> fst ` set ne" and "distinct (map fst ne)"
  shows "\<exists>ne'. neighbor_count_loop cw (domains s) a var wordV ns ne = Inr ne'"
  using assms(4,5,6)
proof (induction ns arbitrary: ne)
  case Nil
  show ?case by simp
next
  case (Cons n ns)
  from Cons.prems(1) have n: "n \<in> set (neighbors cw var)" and ns: "set ns \<subseteq> set (neighbors cw var)"
    by simp_all
  show ?case
  proof (cases "n \<in> fst ` set a")
    case True
    with Cons.IH [OF ns Cons.prems(2,3)] show ?thesis by simp
  next
    case False
    from neighbors_overlap [OF assms(1) n] obtain k l
      where nv: "n \<in> set (variables cw)" and ov: "overlaps cw (var, n) = Some (Some (k, l))"
        and k: "int k < var_length var" and l: "int l < var_length n"
      by blast
    from node_consistent_domain [OF assms(2) nv] obtain dn
      where dn: "getitem (domains s) n = Inr dn"
        and len: "\<forall>w \<in> set dn. int (length w) = var_length n"
      by blast
    from k assms(3) have k': "k < length wordV" by simp
    from l len have l': "\<forall>wordN \<in> set dn. l < length wordN" by auto
    from count_loop_total [OF k' l' Cons.prems(2)] obtain ne1
      where c: "count_loop k l wordV dn ne = Inr ne1" by blast
    from count_loop_bump [OF c Cons.prems(3)]
    have keys: "map fst ne1 = map fst ne" by (simp add: bump_keys)
    then have "set (map fst ne1) = set (map fst ne)" by simp
    with Cons.prems(2) have in1: "wordV \<in> fst ` set ne1" by simp
    from keys Cons.prems(3) have d1: "distinct (map fst ne1)" by simp
    from Cons.IH [OF ns in1 d1] False ov dn c show ?thesis by simp
  qed
qed

lemma eliminated_loop_total:
  assumes "wf_crossword cw" and "node_consistent cw s"
    and "\<forall>w \<in> set ws. int (length w) = var_length var"
    and "set ws \<subseteq> fst ` set ne" and "distinct (map fst ne)"
  shows "\<exists>ne'. eliminated_loop cw (domains s) a var ws ne = Inr ne'"
  using assms(3,4,5)
proof (induction ws arbitrary: ne)
  case Nil
  show ?case by simp
next
  case (Cons wordV rest)
  from Cons.prems have len: "int (length wordV) = var_length var"
    and inn: "wordV \<in> fst ` set ne" by simp_all
  from neighbor_count_loop_total [OF assms(1,2) len subset_refl inn Cons.prems(3)]
  obtain ne1 where n1: "neighbor_count_loop cw (domains s) a var wordV (neighbors cw var) ne = Inr ne1"
    by blast
  from neighbor_count_loop_bump [OF n1 Cons.prems(3)]
  have keys: "map fst ne1 = map fst ne" by (simp add: bump_keys)
  then have "set (map fst ne1) = set (map fst ne)" by simp
  with Cons.prems(2) have sub: "set rest \<subseteq> fst ` set ne1" by simp
  from keys Cons.prems(3) have d1: "distinct (map fst ne1)" by simp
  from Cons.prems(1) have "\<forall>w \<in> set rest. int (length w) = var_length var" by simp
  from Cons.IH [OF this sub d1] n1 show ?case by simp
qed

lemma order_domain_values_sorted:
  assumes "snd (order_domain_values cw var p s) = Inr ws"
    and "getitem (domains s) var = Inr d" and "distinct d" and "deref s p = Inr a"
  shows "mset ws = mset d \<and> sorted (map (eliminated cw (domains s) a var) ws)"
proof -
  let ?ne0 = "fold (\<lambda>word. AList.update word (0::int)) d []"
  have ne0: "?ne0 = map (\<lambda>w. (w, 0)) d"
    using fold_update_zero [OF assms(3), of "[]"] by simp
  have k0: "map fst ?ne0 = d" unfolding ne0 by (simp add: comp_def)
  from assms(1,2,4) obtain ne
    where loop: "eliminated_loop cw (domains s) a var d ?ne0 = Inr ne"
      and ws: "ws = map fst (sort_key snd ne)"
    by (cases "eliminated_loop cw (domains s) a var d ?ne0")
       (simp_all add: order_domain_values_def)
  have d0: "distinct (map fst ?ne0)" using k0 assms(3) by simp
  from eliminated_loop_entries [OF loop d0 assms(3)]
  have keys: "map fst ne = d"
    and ent: "\<And>w n'. (w, n') \<in> set ne \<Longrightarrow>
        \<exists>n. (w, n) \<in> set ?ne0 \<and>
          n' = (if w \<in> set d then n + eliminated cw (domains s) a var w else n)"
    using k0 by auto
  have val: "n' = eliminated cw (domains s) a var w" if "(w, n') \<in> set ne" for w n'
  proof -
    from ent [OF that] obtain n where n: "(w, n) \<in> set ?ne0"
      and n': "n' = (if w \<in> set d then n + eliminated cw (domains s) a var w else n)"
      by blast
    from n have "n = 0" and "w \<in> set d" unfolding ne0 by auto
    with n' show ?thesis by simp
  qed
  have "mset ws = image_mset fst (mset ne)" unfolding ws by simp
  also have "\<dots> = mset (map fst ne)" by simp
  finally have m: "mset ws = mset d" using keys by simp
  have "map (eliminated cw (domains s) a var) ws = map snd (sort_key snd ne)"
    unfolding ws using val by (auto simp: comp_def)
  then have "sorted (map (eliminated cw (domains s) a var) ws)" by simp
  with m show ?thesis by simp
qed

lemma order_domain_values_total:
  assumes "wf_crossword cw" and "node_consistent cw s" and "var \<in> set (variables cw)"
    and "deref s p = Inr a"
  shows "\<exists>ws. order_domain_values cw var p s = (s, Inr ws)"
proof -
  from node_consistent_domain [OF assms(2,3)] obtain d
    where d: "getitem (domains s) var = Inr d"
      and len: "\<forall>w \<in> set d. int (length w) = var_length var"
    by blast
  let ?ne0 = "fold (\<lambda>word. AList.update word (0::int)) d []"
  have keys: "fst ` set ?ne0 = set d \<and> distinct (map fst ?ne0)"
  proof -
    have "fst ` set (fold (\<lambda>word. AList.update word (0::int)) ws acc) = set ws \<union> fst ` set acc
        \<and> (distinct (map fst acc) \<longrightarrow>
             distinct (map fst (fold (\<lambda>word. AList.update word (0::int)) ws acc)))" for ws acc
      by (induction ws arbitrary: acc) (auto simp: fst_set_update distinct_update)
    from this [of d "[]"] show ?thesis by simp
  qed
  then have sub: "set d \<subseteq> fst ` set ?ne0" and d0: "distinct (map fst ?ne0)" by simp_all
  from eliminated_loop_total [OF assms(1,2) len sub d0] obtain ne
    where "eliminated_loop cw (domains s) a var d ?ne0 = Inr ne" by blast
  with d assms(4) show ?thesis by (simp add: order_domain_values_def)
qed

text \<open>
  C8. \<^verbatim>\<open>order_domain_values\<close> leaves the state, and so every domain, as it found it.
  What it returns is a rearrangement of the domain of \<open>var\<close> in which the count of
  eliminated values never decreases from one word to the next. On a well-formed crossword
  with node-consistent domains it returns such a list and does not raise.
\<close>

theorem order_domain_values_least_constraining_first:
  assumes "getitem (domains s) var = Inr d" and "distinct d" and "deref s p = Inr a"
  shows "fst (order_domain_values cw var p s) = s
    \<and> (\<forall>ws. snd (order_domain_values cw var p s) = Inr ws \<longrightarrow>
          mset ws = mset d \<and> sorted (map (eliminated cw (domains s) a var) ws))
    \<and> (wf_crossword cw \<and> node_consistent cw s \<and> var \<in> set (variables cw) \<longrightarrow>
          (\<exists>ws. snd (order_domain_values cw var p s) = Inr ws))"
proof -
  have "\<exists>ws. snd (order_domain_values cw var p s) = Inr ws"
    if "wf_crossword cw" "node_consistent cw s" "var \<in> set (variables cw)"
    using order_domain_values_total [OF that assms(3)] by auto
  with order_domain_values_sorted [OF _ assms] order_domain_values_state [of cw var p s]
  show ?thesis by blast
qed


lemma wf_two_slots: "wf_crossword (two_slots ws)"
  unfolding wf_crossword_def two_slots_def
  by (auto simp: across1_def down1_def split: if_splits)

lemma wf_three_slots: "wf_crossword (three_slots ws)"
  unfolding wf_crossword_def three_slots_def
  by (auto simp: top_def bottom_def middle_def split: if_splits)

theorem order_domain_values_witness:
  "getitem (domains (propagated (two_slots [''cat'', ''cot'', ''art'', ''ant'', ''oat''])))
      across1 = Inr [''cat'', ''cot'', ''oat'']
   \<and> distinct [''cat'', ''cot'', ''oat'']
   \<and> deref (propagated (two_slots [''cat'', ''cot'', ''art'', ''ant'', ''oat''])) 0 = Inr []
   \<and> wf_crossword (two_slots [''cat'', ''cot'', ''art'', ''ant'', ''oat''])
   \<and> node_consistent (two_slots [''cat'', ''cot'', ''art'', ''ant'', ''oat''])
        (propagated (two_slots [''cat'', ''cot'', ''art'', ''ant'', ''oat'']))
   \<and> across1 \<in> set (variables (two_slots [''cat'', ''cot'', ''art'', ''ant'', ''oat'']))
   \<and> snd (order_domain_values (two_slots [''cat'', ''cot'', ''art'', ''ant'', ''oat'']) across1 0
        (propagated (two_slots [''cat'', ''cot'', ''art'', ''ant'', ''oat'']))) =
      Inr [''cat'', ''oat'', ''cot'']
   \<and> mset [''cat'', ''oat'', ''cot''] = mset [''cat'', ''cot'', ''oat'']
   \<and> sorted (map (eliminated (two_slots [''cat'', ''cot'', ''art'', ''ant'', ''oat''])
                  (domains (propagated (two_slots [''cat'', ''cot'', ''art'', ''ant'', ''oat''])))
                  [] across1)
              [''cat'', ''oat'', ''cot''])"
proof -
  let ?cw = "two_slots [''cat'', ''cot'', ''art'', ''ant'', ''oat'']"
  let ?s = "propagated ?cw"
  have doms: "domains ?s = [(across1, [''cat'', ''cot'', ''oat'']), (down1, [''art'', ''ant'', ''oat''])]"
    by code_simp
  have g: "getitem (domains ?s) across1 = Inr [''cat'', ''cot'', ''oat'']"
    by code_simp
  have dd: "distinct [''cat'', ''cot'', ''oat'']" by simp
  have dr: "deref ?s 0 = Inr []" by code_simp
  have wf: "wf_crossword ?cw" by (rule wf_two_slots)
  have nc: "node_consistent ?cw ?s"
    unfolding node_consistent_def doms
    by (auto simp: two_slots_def getitem_def across1_def down1_def split: if_splits)
  have v: "across1 \<in> set (variables ?cw)" by (simp add: two_slots_def)
  have r: "snd (order_domain_values ?cw across1 0 ?s) = Inr [''cat'', ''oat'', ''cot'']"
    by code_simp
  from order_domain_values_least_constraining_first [OF g dd dr, of ?cw] r
  have "mset [''cat'', ''oat'', ''cot''] = mset [''cat'', ''cot'', ''oat'']
      \<and> sorted (map (eliminated ?cw (domains ?s) [] across1) [''cat'', ''oat'', ''cot''])"
    by blast
  with g dd dr wf nc v r show ?thesis by blast
qed

subsection \<open>The search, step by step\<close>

text \<open>The store after \<^verbatim>\<open>new_assignment = assignment.copy(); new_assignment[var] = value\<close>.\<close>

definition extended :: "creator \<Rightarrow> ref \<Rightarrow> variable \<Rightarrow> string \<Rightarrow> creator" where
  "extended s p var w = s\<lparr>store := store s @ [AList.update var w (store s ! p)]\<rparr>"

lemma copy_setitem:
  assumes "p < length (store s)"
  shows "dict_copy p s = (s\<lparr>store := store s @ [store s ! p]\<rparr>, Inr (length (store s)))"
    and "dict_setitem (length (store s)) var w (s\<lparr>store := store s @ [store s ! p]\<rparr>) =
           (extended s p var w, Inr ())"
  using assms by (simp_all add: dict_copy_def dict_setitem_def deref_def extended_def)

lemma backtrack_unfold:
  "backtrack cw p s =
     (case snd (assignment_complete cw p s) of
        Inl e \<Rightarrow> (s, Inl e)
      | Inr complete \<Rightarrow>
          (if complete then (s, Inr (Some p))
           else
             (case snd (select_unassigned_variable cw p s) of
                Inl e \<Rightarrow> (s, Inl e)
              | Inr var \<Rightarrow>
                  (case snd (order_domain_values cw var p s) of
                     Inl e \<Rightarrow> (s, Inl e)
                   | Inr vals \<Rightarrow> backtrack_loop cw p var vals s))))"
proof -
  obtain r1 where r1: "assignment_complete cw p s = (s, r1)"
    using assignment_complete_state [of cw p s] by (cases "assignment_complete cw p s") simp
  obtain r2 where r2: "select_unassigned_variable cw p s = (s, r2)"
    using select_unassigned_variable_state [of cw p s]
    by (cases "select_unassigned_variable cw p s") simp
  have r3: "order_domain_values cw var p s = (s, snd (order_domain_values cw var p s))" for var
    using order_domain_values_state [of cw var p s]
    by (cases "order_domain_values cw var p s") simp
  show ?thesis
  proof (cases r1)
    case (Inl e)
    with r1 show ?thesis by (subst backtrack.simps) simp
  next
    case (Inr complete)
    show ?thesis
    proof (cases complete)
      case True
      with r1 Inr show ?thesis by (subst backtrack.simps) simp
    next
      case False
      show ?thesis
      proof (cases r2)
        case (Inl e)
        with r1 \<open>r1 = Inr complete\<close> False r2 show ?thesis by (subst backtrack.simps) simp
      next
        case var: (Inr var)
        obtain r where r: "order_domain_values cw var p s = (s, r)" using r3 by blast
        with r1 \<open>r1 = Inr complete\<close> False r2 var show ?thesis
          by (subst backtrack.simps) (simp split: sum.splits)
      qed
    qed
  qed
qed

lemma backtrack_loop_unfold:
  "backtrack_loop cw p var (w # rest) s =
     (if p < length (store s) then
        (case snd (consistent cw (length (store s)) (extended s p var w)) of
           Inl e \<Rightarrow> (extended s p var w, Inl e)
         | Inr ok \<Rightarrow>
             (if ok then
                (case backtrack cw (length (store s)) (extended s p var w) of
                   (s4, Inl e) \<Rightarrow> (s4, Inl e)
                 | (s4, Inr (Some result)) \<Rightarrow> (s4, Inr (Some result))
                 | (s4, Inr None) \<Rightarrow> backtrack_loop cw p var rest s4)
              else backtrack_loop cw p var rest (extended s p var w)))
      else (s, Inl InvalidRef))"
proof (cases "p < length (store s)")
  case False
  then show ?thesis by (simp add: dict_copy_def deref_def)
next
  case True
  let ?q = "length (store s)"
  let ?s2 = "extended s p var w"
  obtain r3 where r3: "consistent cw ?q ?s2 = (?s2, r3)"
    using consistent_state [of cw ?q ?s2] by (cases "consistent cw ?q ?s2") simp
  from True copy_setitem(1) [OF True] copy_setitem(2) [OF True, of var w] r3 show ?thesis
    by (cases r3) simp_all
qed

declare backtrack.simps [simp del] backtrack_loop.simps(2) [simp del]

text \<open>Induction along the search, with the state changes of the read-only steps resolved.\<close>

lemma backtrack_induct [case_names backtrack Nil Cons]:
  assumes "\<And>cw p s.
      (\<And>var vals. snd (assignment_complete cw p s) = Inr False \<Longrightarrow>
          snd (select_unassigned_variable cw p s) = Inr var \<Longrightarrow>
          snd (order_domain_values cw var p s) = Inr vals \<Longrightarrow> Q cw p var vals s) \<Longrightarrow>
      P cw p s"
    and "\<And>cw p var s. Q cw p var [] s"
    and "\<And>cw p var w rest s.
      (p < length (store s) \<Longrightarrow>
         snd (consistent cw (length (store s)) (extended s p var w)) = Inr True \<Longrightarrow>
         P cw (length (store s)) (extended s p var w)) \<Longrightarrow>
      (\<And>s4. p < length (store s) \<Longrightarrow>
         snd (consistent cw (length (store s)) (extended s p var w)) = Inr True \<Longrightarrow>
         backtrack cw (length (store s)) (extended s p var w) = (s4, Inr None) \<Longrightarrow>
         Q cw p var rest s4) \<Longrightarrow>
      (p < length (store s) \<Longrightarrow>
         snd (consistent cw (length (store s)) (extended s p var w)) = Inr False \<Longrightarrow>
         Q cw p var rest (extended s p var w)) \<Longrightarrow>
      Q cw p var (w # rest) s"
  shows "P cw p s" and "Q cw p var vals s"
proof (induction cw p s and cw p var vals s rule: backtrack_backtrack_loop.induct)
  case (1 cw p s)
  show ?case
  proof (rule assms(1))
    fix var vals
    assume a: "snd (assignment_complete cw p s) = Inr False"
      and b: "snd (select_unassigned_variable cw p s) = Inr var"
      and c: "snd (order_domain_values cw var p s) = Inr vals"
    have a': "(s, Inr False) = assignment_complete cw p s"
      using a assignment_complete_state [of cw p s] by (cases "assignment_complete cw p s") simp
    have b': "(s, Inr var) = select_unassigned_variable cw p s"
      using b select_unassigned_variable_state [of cw p s]
      by (cases "select_unassigned_variable cw p s") simp
    have c': "(s, Inr vals) = order_domain_values cw var p s"
      using c order_domain_values_state [of cw var p s]
      by (cases "order_domain_values cw var p s") simp
    show "Q cw p var vals s"
      by (rule "1.IH" [OF a' refl _ b' refl c' refl]) simp
  qed
next
  case (2 cw p var s)
  show ?case by (rule assms(2))
next
  case (3 cw p var w rest s)
  let ?q = "length (store s)"
  let ?s1 = "s\<lparr>store := store s @ [store s ! p]\<rparr>"
  let ?s2 = "extended s p var w"
  have cp: "(?s1, Inr ?q) = dict_copy p s" if "p < length (store s)"
    using copy_setitem(1) [OF that] by simp
  have st: "(?s2, Inr ()) = dict_setitem ?q var w ?s1" if "p < length (store s)"
    using copy_setitem(2) [OF that, of var w] by simp
  have co: "(?s2, Inr b) = consistent cw ?q ?s2" if "snd (consistent cw ?q ?s2) = Inr b" for b
    using that consistent_state [of cw ?q ?s2] by (cases "consistent cw ?q ?s2") simp
  show ?case
  proof (rule assms(3))
    assume p: "p < length (store s)" and c: "snd (consistent cw ?q ?s2) = Inr True"
    show "P cw ?q ?s2"
      by (rule "3.IH"(1) [OF cp [OF p] refl st [OF p] refl co [OF c] refl]) simp
  next
    fix s4
    assume p: "p < length (store s)" and c: "snd (consistent cw ?q ?s2) = Inr True"
      and b: "backtrack cw ?q ?s2 = (s4, Inr None)"
    show "Q cw p var rest s4"
      by (rule "3.IH"(2) [OF cp [OF p] refl st [OF p] refl co [OF c] refl _ b [symmetric] refl])
         simp_all
  next
    assume p: "p < length (store s)" and c: "snd (consistent cw ?q ?s2) = Inr False"
    show "Q cw p var rest ?s2"
      by (rule "3.IH"(3) [OF cp [OF p] refl st [OF p] refl co [OF c] refl]) simp
  qed
qed


subsection \<open>The search never writes to an assignment it was given\<close>

text \<open>
  \<open>grown_by_copies s s'\<close>: every dictionary that \<open>s'\<close> holds beyond those of \<open>s\<close> is an
  older dictionary of \<open>s'\<close>, its parent, with one binding added for a variable the parent
  does not bind.
\<close>

definition grown_by_copies :: "creator \<Rightarrow> creator \<Rightarrow> bool" where
  "grown_by_copies s s' \<longleftrightarrow>
     (\<forall>q. length (store s) \<le> q \<and> q < length (store s') \<longrightarrow>
        (\<exists>parent < q. \<exists>var w. var \<notin> fst ` set (store s' ! parent)
            \<and> store s' ! q = store s' ! parent @ [(var, w)]))"

lemma grown_refl: "grown_by_copies s s"
  by (auto simp: grown_by_copies_def)

lemma grown_trans:
  assumes "grown_by_copies s s1" and "extends s1 s2" and "grown_by_copies s1 s2"
  shows "grown_by_copies s s2"
  unfolding grown_by_copies_def
proof (intro allI impI)
  fix q
  assume q: "length (store s) \<le> q \<and> q < length (store s2)"
  show "\<exists>parent < q. \<exists>var w. var \<notin> fst ` set (store s2 ! parent)
            \<and> store s2 ! q = store s2 ! parent @ [(var, w)]"
  proof (cases "q < length (store s1)")
    case False
    with q assms(3) show ?thesis unfolding grown_by_copies_def by simp
  next
    case True
    with q assms(1) obtain parent var w where pq: "parent < q"
      and v: "var \<notin> fst ` set (store s1 ! parent)"
      and e: "store s1 ! q = store s1 ! parent @ [(var, w)]"
      unfolding grown_by_copies_def by blast
    from pq True have pl: "parent < length (store s1)" by simp
    have q2: "store s2 ! q = store s1 ! q" using assms(2) True by (rule extends_nth)
    have p2: "store s2 ! parent = store s1 ! parent" using assms(2) pl by (rule extends_nth)
    have "var \<notin> fst ` set (store s2 ! parent)" using v p2 by simp
    moreover have "store s2 ! q = store s2 ! parent @ [(var, w)]" using e q2 p2 by simp
    ultimately show ?thesis using pq by blast
  qed
qed

lemma update_fresh: "k \<notin> fst ` set al \<Longrightarrow> AList.update k v al = al @ [(k, v)]"
  by (induction al) auto

lemma extended_extends: "extends s (extended s p var w)"
  by (simp add: extended_def extends_def)

lemma extended_grown:
  assumes "p < length (store s)" and "var \<notin> fst ` set (store s ! p)"
  shows "grown_by_copies s (extended s p var w)"
  unfolding grown_by_copies_def
proof (intro allI impI)
  fix q
  assume "length (store s) \<le> q \<and> q < length (store (extended s p var w))"
  then have q: "q = length (store s)" by (simp add: extended_def)
  have pp: "store (extended s p var w) ! p = store s ! p"
    using assms(1) by (simp add: extended_def nth_append)
  have qq: "store (extended s p var w) ! q = store s ! p @ [(var, w)]"
    using q assms(2) by (simp add: extended_def update_fresh)
  have "p < q" using assms(1) q by simp
  moreover have "var \<notin> fst ` set (store (extended s p var w) ! p)" using assms(2) pp by simp
  moreover have "store (extended s p var w) ! q = store (extended s p var w) ! p @ [(var, w)]"
    using pp qq by simp
  ultimately show "\<exists>parent < q. \<exists>var' w'. var' \<notin> fst ` set (store (extended s p var w) ! parent)
            \<and> store (extended s p var w) ! q = store (extended s p var w) ! parent @ [(var', w')]"
    by blast
qed

lemma backtrack_extends:
  "extends s (fst (backtrack cw p s))"
  "extends s (fst (backtrack_loop cw p var vals s))"
proof (induction cw p s and cw p var vals s rule: backtrack_induct)
  case (backtrack cw p s)
  then show ?case
    by (subst backtrack_unfold) (auto simp: extends_refl split: sum.splits)
next
  case (Nil cw p var s)
  show ?case by (simp add: extends_refl)
next
  case (Cons cw p var w rest s)
  let ?s2 = "extended s p var w"
  have e2: "extends s ?s2" by (rule extended_extends)
  show ?case
  proof (cases "p < length (store s)")
    case False
    then show ?thesis by (subst backtrack_loop_unfold) (simp add: extends_refl)
  next
    case p: True
    show ?thesis
    proof (cases "snd (consistent cw (length (store s)) ?s2)")
      case (Inl e)
      with p e2 show ?thesis by (subst backtrack_loop_unfold) simp
    next
      case (Inr ok)
      show ?thesis
      proof (cases ok)
        case False
        with p Inr Cons.IH(3) have "extends ?s2 (fst (backtrack_loop cw p var rest ?s2))" by simp
        with e2 have "extends s (fst (backtrack_loop cw p var rest ?s2))" by (rule extends_trans)
        with p Inr False show ?thesis by (subst backtrack_loop_unfold) simp
      next
        case True
        obtain s4 r4 where b: "backtrack cw (length (store s)) ?s2 = (s4, r4)" by fastforce
        from p Inr True Cons.IH(1) b have "extends ?s2 s4" by simp
        with e2 have e4: "extends s s4" by (rule extends_trans)
        show ?thesis
        proof (cases r4)
          case (Inl e)
          with p Inr True b e4 show ?thesis by (subst backtrack_loop_unfold) simp
        next
          case res: (Inr res)
          show ?thesis
          proof (cases res)
            case (Some r)
            with p Inr True b res e4 show ?thesis by (subst backtrack_loop_unfold) simp
          next
            case None
            with p Inr True b res Cons.IH(2) [of s4]
            have "extends s4 (fst (backtrack_loop cw p var rest s4))" by simp
            with e4 have "extends s (fst (backtrack_loop cw p var rest s4))"
              by (rule extends_trans)
            with p Inr True b res None show ?thesis by (subst backtrack_loop_unfold) simp
          qed
        qed
      qed
    qed
  qed
qed

lemma backtrack_grown:
  "grown_by_copies s (fst (backtrack cw p s))"
  "p < length (store s) \<longrightarrow> var \<notin> fst ` set (store s ! p) \<longrightarrow>
     grown_by_copies s (fst (backtrack_loop cw p var vals s))"
proof (induction cw p s and cw p var vals s rule: backtrack_induct)
  case (backtrack cw p s)
  show ?case
  proof (cases "snd (assignment_complete cw p s)")
    case (Inl e)
    then show ?thesis by (subst backtrack_unfold) (simp add: grown_refl)
  next
    case (Inr complete)
    show ?thesis
    proof (cases complete)
      case True
      with Inr show ?thesis by (subst backtrack_unfold) (simp add: grown_refl)
    next
      case False
      show ?thesis
      proof (cases "snd (select_unassigned_variable cw p s)")
        case (Inl e)
        with Inr False show ?thesis by (subst backtrack_unfold) (simp add: grown_refl)
      next
        case var: (Inr var)
        have "select_unassigned_variable cw p s = (s, Inr var)"
          using var select_unassigned_variable_state [of cw p s]
          by (cases "select_unassigned_variable cw p s") simp
        from select_unassigned_variable_sound [OF this]
        have fresh: "p < length (store s) \<and> var \<notin> fst ` set (store s ! p)"
          by (auto simp: deref_def split: if_splits)
        show ?thesis
        proof (cases "snd (order_domain_values cw var p s)")
          case (Inl e)
          with Inr False var show ?thesis by (subst backtrack_unfold) (simp add: grown_refl)
        next
          case vals: (Inr vals)
          from backtrack.IH [OF _ var vals] Inr False fresh
          have "grown_by_copies s (fst (backtrack_loop cw p var vals s))" by simp
          with Inr False var vals show ?thesis by (subst backtrack_unfold) simp
        qed
      qed
    qed
  qed
next
  case (Nil cw p var s)
  show ?case by (simp add: grown_refl)
next
  case (Cons cw p var w rest s)
  let ?s2 = "extended s p var w"
  show ?case
  proof (intro impI)
    assume p: "p < length (store s)" and fresh: "var \<notin> fst ` set (store s ! p)"
    have e2: "extends s ?s2" by (rule extended_extends)
    have g2: "grown_by_copies s ?s2" using p fresh by (rule extended_grown)
    have keep: "p < length (store s') \<and> var \<notin> fst ` set (store s' ! p)" if "extends s s'" for s'
      using extends_length [OF that] extends_nth [OF that p] p fresh by simp
    show "grown_by_copies s (fst (backtrack_loop cw p var (w # rest) s))"
    proof (cases "snd (consistent cw (length (store s)) ?s2)")
      case (Inl e)
      with p g2 show ?thesis by (subst backtrack_loop_unfold) simp
    next
      case (Inr ok)
      show ?thesis
      proof (cases ok)
        case False
        with p Inr Cons.IH(3) keep [OF e2]
        have "grown_by_copies ?s2 (fst (backtrack_loop cw p var rest ?s2))" by simp
        with g2 backtrack_extends(2) [of ?s2 cw p var rest]
        have "grown_by_copies s (fst (backtrack_loop cw p var rest ?s2))" by (rule grown_trans)
        with p Inr False show ?thesis by (subst backtrack_loop_unfold) simp
      next
        case True
        obtain s4 r4 where b: "backtrack cw (length (store s)) ?s2 = (s4, r4)" by fastforce
        from p Inr True Cons.IH(1) b have g24: "grown_by_copies ?s2 s4" by simp
        from backtrack_extends(1) [of ?s2 cw "length (store s)"] b have e24: "extends ?s2 s4" by simp
        from g2 e24 g24 have g4: "grown_by_copies s s4" by (rule grown_trans)
        from e2 e24 have e4: "extends s s4" by (rule extends_trans)
        show ?thesis
        proof (cases r4)
          case (Inl e)
          with p Inr True b g4 show ?thesis by (subst backtrack_loop_unfold) simp
        next
          case res: (Inr res)
          show ?thesis
          proof (cases res)
            case (Some r)
            with p Inr True b res g4 show ?thesis by (subst backtrack_loop_unfold) simp
          next
            case None
            with p Inr True b res Cons.IH(2) [of s4] keep [OF e4]
            have "grown_by_copies s4 (fst (backtrack_loop cw p var rest s4))" by simp
            with g4 backtrack_extends(2) [of s4 cw p var rest]
            have "grown_by_copies s (fst (backtrack_loop cw p var rest s4))"
              by (rule grown_trans)
            with p Inr True b res None show ?thesis by (subst backtrack_loop_unfold) simp
          qed
        qed
      qed
    qed
  qed
qed

text \<open>
  C9. Whatever \<^verbatim>\<open>backtrack\<close> does (it may succeed, fail or raise), the domains and every
  dictionary that existed before the call, the caller's assignment among them, are
  unchanged afterwards; every dictionary the call has created is a copy of an older one
  with one binding added.
\<close>

theorem backtrack_leaves_assignments_alone:
  "extends s (fst (backtrack cw p s)) \<and> grown_by_copies s (fst (backtrack cw p s))"
  using backtrack_extends(1) [of s cw p] backtrack_grown(1) [of s cw p] by simp


theorem backtrack_leaves_assignments_alone_witness:
  "store (propagated (three_slots [''dogs'', ''oho'', ''ono''])) = [[]]
   \<and> snd (backtrack (three_slots [''dogs'', ''oho'', ''ono'']) 0
            (propagated (three_slots [''dogs'', ''oho'', ''ono'']))) = Inr None
   \<and> length (store (fst (backtrack (three_slots [''dogs'', ''oho'', ''ono'']) 0
            (propagated (three_slots [''dogs'', ''oho'', ''ono'']))))) = 7
   \<and> take 1 (store (fst (backtrack (three_slots [''dogs'', ''oho'', ''ono'']) 0
            (propagated (three_slots [''dogs'', ''oho'', ''ono'']))))) = [[]]
   \<and> (\<exists>parent < 5. \<exists>var w.
         var \<notin> fst ` set (store (fst (backtrack (three_slots [''dogs'', ''oho'', ''ono'']) 0
            (propagated (three_slots [''dogs'', ''oho'', ''ono''])))) ! parent)
         \<and> store (fst (backtrack (three_slots [''dogs'', ''oho'', ''ono'']) 0
            (propagated (three_slots [''dogs'', ''oho'', ''ono''])))) ! 5 =
           store (fst (backtrack (three_slots [''dogs'', ''oho'', ''ono'']) 0
            (propagated (three_slots [''dogs'', ''oho'', ''ono''])))) ! parent @ [(var, w)])"
proof -
  let ?cw = "three_slots [''dogs'', ''oho'', ''ono'']"
  let ?s = "propagated ?cw"
  let ?s' = "fst (backtrack ?cw 0 ?s)"
  have s0: "store ?s = [[]]" by code_simp
  have r: "snd (backtrack ?cw 0 ?s) = Inr None" by code_simp
  have n: "length (store ?s') = 7" by code_simp
  from backtrack_leaves_assignments_alone [of ?s ?cw 0]
  have e: "extends ?s ?s'" and g: "grown_by_copies ?s ?s'" by simp_all
  from e s0 have t: "take 1 (store ?s') = [[]]" by (simp add: extends_def)
  from s0 n have "length (store ?s) \<le> 5 \<and> 5 < length (store ?s')" by simp
  with g have "\<exists>parent < 5. \<exists>var w. var \<notin> fst ` set (store ?s' ! parent)
      \<and> store ?s' ! 5 = store ?s' ! parent @ [(var, w)]"
    unfolding grown_by_copies_def by blast
  with s0 r n t show ?thesis by blast
qed

subsection \<open>Returned assignments are solutions\<close>














subsection \<open>Propagation on a well-formed crossword does not raise\<close>

lemma wrong_length_words_set:
  "set (wrong_length_words v d acc) = set acc \<union> {w \<in> set d. int (length w) \<noteq> var_length v}"
  by (induction d arbitrary: acc) (auto simp: set_add_def)

lemma wrong_length_words_distinct:
  "distinct acc \<Longrightarrow> distinct (wrong_length_words v d acc)"
  by (induction d arbitrary: acc) (auto simp: set_add_def)

lemma remove_words_ok:
  "distinct ws \<Longrightarrow> set ws \<subseteq> set d \<Longrightarrow>
     remove_words ws d = (filter (\<lambda>w. w \<notin> set ws) d, Inr ())"
proof (induction ws arbitrary: d)
  case Nil
  show ?case by simp
next
  case (Cons x ws)
  from Cons.prems have x: "x \<in> set d" and xs: "x \<notin> set ws" and d: "distinct ws" by simp_all
  from Cons.prems xs have sub: "set ws \<subseteq> set (removeAll x d)" by auto
  have "filter (\<lambda>w. w \<notin> set ws) (removeAll x d) = filter (\<lambda>w. w \<notin> set (x # ws)) d"
    by (induction d) auto
  with Cons.IH [OF d sub] x show ?case by simp
qed

lemma node_step:
  "remove_words (wrong_length_words v d []) d =
     (filter (\<lambda>w. int (length w) = var_length v) d, Inr ())"
proof -
  have "distinct (wrong_length_words v d [])" by (simp add: wrong_length_words_distinct)
  moreover have "set (wrong_length_words v d []) \<subseteq> set d"
    by (auto simp: wrong_length_words_set)
  ultimately have "remove_words (wrong_length_words v d []) d =
      (filter (\<lambda>w. w \<notin> set (wrong_length_words v d [])) d, Inr ())"
    by (rule remove_words_ok)
  moreover have "filter (\<lambda>w. w \<notin> set (wrong_length_words v d [])) d =
      filter (\<lambda>w. int (length w) = var_length v) d"
    by (rule filter_cong) (auto simp: wrong_length_words_set)
  ultimately show ?thesis by simp
qed

text \<open>
  After the loop over \<open>vs\<close>, the domain of each of them holds the words of the right length
  and no others; the other domains are as before.
\<close>

lemma enforce_loop_result:
  assumes "set vs \<subseteq> fst ` set (domains s)"
  shows "\<exists>s'. enforce_loop vs s = (s', Inr ())
           \<and> store s' = store s
           \<and> fst ` set (domains s') = fst ` set (domains s)
           \<and> (\<forall>v d'. getitem (domains s') v = Inr d' \<longrightarrow>
                 (\<exists>d. getitem (domains s) v = Inr d
                    \<and> (v \<in> set vs \<longrightarrow> (\<forall>w \<in> set d'. int (length w) = var_length v))
                    \<and> set d' \<subseteq> set d))"
  using assms
proof (induction vs arbitrary: s)
  case Nil
  show ?case by simp
next
  case (Cons v vs)
  from Cons.prems have "v \<in> fst ` set (domains s)" by simp
  then have "\<exists>d. getitem (domains s) v = Inr d" by (simp only: getitem_keys)
  then obtain d where d: "getitem (domains s) v = Inr d" by (rule exE)
  let ?d' = "filter (\<lambda>w. int (length w) = var_length v) d"
  let ?s1 = "s\<lparr>domains := AList.update v ?d' (domains s)\<rparr>"
  have keys1: "fst ` set (domains ?s1) = fst ` set (domains s)"
    using \<open>v \<in> fst ` set (domains s)\<close> by (auto simp: fst_set_update)
  with Cons.prems have "set vs \<subseteq> fst ` set (domains ?s1)" by simp
  from Cons.IH [OF this] obtain s'
    where run: "enforce_loop vs ?s1 = (s', Inr ())"
      and st: "store s' = store ?s1"
      and keys: "fst ` set (domains s') = fst ` set (domains ?s1)"
      and doms: "\<And>u d'. getitem (domains s') u = Inr d' \<Longrightarrow>
                 \<exists>d1. getitem (domains ?s1) u = Inr d1
                    \<and> (u \<in> set vs \<longrightarrow> (\<forall>w \<in> set d'. int (length w) = var_length u))
                    \<and> set d' \<subseteq> set d1"
    by blast
  have step: "enforce_loop (v # vs) s = (s', Inr ())"
    using d node_step [of v d] run by simp
  have final: "\<exists>d0. getitem (domains s) u = Inr d0
                    \<and> (u \<in> set (v # vs) \<longrightarrow> (\<forall>w \<in> set d'. int (length w) = var_length u))
                    \<and> set d' \<subseteq> set d0"
    if "getitem (domains s') u = Inr d'" for u d'
  proof -
    from doms [OF that] obtain d1 where d1: "getitem (domains ?s1) u = Inr d1"
      and r: "u \<in> set vs \<longrightarrow> (\<forall>w \<in> set d'. int (length w) = var_length u)"
      and sub: "set d' \<subseteq> set d1"
      by blast
    show ?thesis
    proof (cases "u = v")
      case True
      with d1 have "d1 = ?d'" by (simp add: getitem_update)
      with sub have "\<forall>w \<in> set d'. int (length w) = var_length v" and "set d' \<subseteq> set d" by auto
      with True d show ?thesis by simp
    next
      case False
      with d1 have "getitem (domains s) u = Inr d1" by (simp add: getitem_update)
      with r sub False show ?thesis by simp
    qed
  qed
  from step st keys keys1 final show ?case by (simp add: getitem_update)
qed


lemma enforce_node_consistent:
  assumes "fst ` set (domains s) = set (variables cw)"
  shows "\<exists>s1. enforce_node_consistency s = (s1, Inr ()) \<and> node_consistent cw s1"
proof -
  have "set (map fst (domains s)) \<subseteq> fst ` set (domains s)" by simp
  from enforce_loop_result [OF this] obtain s1
    where run: "enforce_loop (map fst (domains s)) s = (s1, Inr ())"
      and keys: "fst ` set (domains s1) = fst ` set (domains s)"
      and doms: "\<And>v d'. getitem (domains s1) v = Inr d' \<Longrightarrow>
                 \<exists>d. getitem (domains s) v = Inr d
                    \<and> (v \<in> set (map fst (domains s)) \<longrightarrow>
                          (\<forall>w \<in> set d'. int (length w) = var_length v))
                    \<and> set d' \<subseteq> set d"
    by blast
  have "\<forall>w \<in> set d'. int (length w) = var_length v" if g: "getitem (domains s1) v = Inr d'" for v d'
  proof -
    from g have "\<exists>d. getitem (domains s1) v = Inr d" by (rule exI)
    then have "v \<in> fst ` set (domains s1)" by (simp only: getitem_keys)
    with keys have "v \<in> set (map fst (domains s))" by simp
    with doms [OF g] show ?thesis by blast
  qed
  with keys assms have "node_consistent cw s1" by (simp add: node_consistent_def)
  with run show ?thesis by (simp add: enforce_node_consistency_def)
qed

lemma node_consistent_shrinks:
  assumes "node_consistent cw s" and "shrinks s s'"
  shows "node_consistent cw s'"
proof -
  have "set (map fst (domains s')) = set (map fst (domains s))"
    by (simp only: shrinks_keys [OF assms(2)])
  then have keys: "fst ` set (domains s') = fst ` set (domains s)" by simp
  have "\<forall>w \<in> set d'. int (length w) = var_length v" if g: "getitem (domains s') v = Inr d'" for v d'
  proof -
    from g have "\<exists>d. getitem (domains s') v = Inr d" by (rule exI)
    then have "v \<in> fst ` set (domains s')" by (simp only: getitem_keys)
    with keys have "v \<in> fst ` set (domains s)" by simp
    then have "\<exists>d. getitem (domains s) v = Inr d" by (simp only: getitem_keys)
    then obtain d where d: "getitem (domains s) v = Inr d" by (rule exE)
    have "set d' \<subseteq> set d" using assms(2) d g by (rule shrinks_subset)
    moreover from assms(1) d have "\<forall>w \<in> set d. int (length w) = var_length v"
      unfolding node_consistent_def by blast
    ultimately show ?thesis by blast
  qed
  with keys assms(1) show ?thesis by (simp add: node_consistent_def)
qed

lemma empty_domain_shrinks:
  assumes "shrinks s s'" and "getitem (domains s) v = Inr []"
  shows "getitem (domains s') v = Inr []"
proof -
  have "set (map fst (domains s')) = set (map fst (domains s))"
    by (simp only: shrinks_keys [OF assms(1)])
  then have keys: "fst ` set (domains s') = fst ` set (domains s)" by simp
  from assms(2) have "\<exists>d. getitem (domains s) v = Inr d" by (rule exI)
  then have "v \<in> fst ` set (domains s)" by (simp only: getitem_keys)
  with keys have "v \<in> fst ` set (domains s')" by simp
  then have "\<exists>d. getitem (domains s') v = Inr d" by (simp only: getitem_keys)
  then obtain d' where d': "getitem (domains s') v = Inr d'" by (rule exE)
  have "set d' \<subseteq> set []" using assms(1,2) d' by (rule shrinks_subset)
  with d' show ?thesis by simp
qed

text \<open>The arcs of a queue join variables of the crossword that overlap.\<close>

definition arcs_ok :: "crossword \<Rightarrow> (variable \<times> variable) list \<Rightarrow> bool" where
  "arcs_ok cw q \<longleftrightarrow>
     (\<forall>(x, y) \<in> set q. x \<in> set (variables cw) \<and> y \<in> set (variables cw)
         \<and> (\<exists>k l. overlaps cw (x, y) = Some (Some (k, l))))"

lemma arcs_from_ok:
  assumes "wf_crossword cw" and "v1 \<in> set (variables cw)" and "set vs \<subseteq> set (variables cw)"
  shows "\<exists>q. arcs_from cw v1 vs = Inr q \<and> arcs_ok cw q"
  using assms(3)
proof (induction vs)
  case Nil
  show ?case by (simp add: arcs_ok_def)
next
  case (Cons v2 vs)
  then obtain q where q: "arcs_from cw v1 vs = Inr q" and ok: "arcs_ok cw q" by auto
  show ?case
  proof (cases "v1 = v2")
    case True
    with q ok show ?thesis by simp
  next
    case False
    from Cons.prems have v2: "v2 \<in> set (variables cw)" by simp
    with assms(1,2) False have "overlaps cw (v1, v2) \<noteq> None"
      unfolding wf_crossword_def by blast
    then obtain ov where ov: "overlaps cw (v1, v2) = Some ov" by blast
    show ?thesis
    proof (cases ov)
      case None
      with False ov q ok show ?thesis by simp
    next
      case (Some kl)
      obtain k l where "kl = (k, l)" by (cases kl)
      with Some ov have "overlaps cw (v1, v2) = Some (Some (k, l))" by simp
      with assms(2) v2 ok have "arcs_ok cw ((v1, v2) # q)" by (auto simp: arcs_ok_def)
      with False ov Some q show ?thesis by simp
    qed
  qed
qed

lemma all_arcs_ok:
  assumes "wf_crossword cw" and "set vs \<subseteq> set (variables cw)"
  shows "\<exists>q. all_arcs cw vs = Inr q \<and> arcs_ok cw q"
  using assms(2)
proof (induction vs)
  case Nil
  show ?case by (simp add: arcs_ok_def)
next
  case (Cons v1 vs)
  then obtain q where q: "all_arcs cw vs = Inr q" and ok: "arcs_ok cw q" by auto
  from Cons.prems have "v1 \<in> set (variables cw)" by simp
  from arcs_from_ok [OF assms(1) this subset_refl] obtain q1
    where q1: "arcs_from cw v1 (variables cw) = Inr q1" and ok1: "arcs_ok cw q1" by blast
  from ok ok1 have "arcs_ok cw (q1 @ q)" by (auto simp: arcs_ok_def)
  with q q1 show ?case by simp
qed

lemma chars_at_ok: "\<forall>w \<in> set ws. l < length w \<Longrightarrow> \<exists>cs. chars_at l ws = Inr cs"
  by (induction ws) (auto simp: py_index_def)

lemma revise_scan_ok:
  assumes "\<forall>w \<in> set dy. l < length w"
  shows "\<forall>w \<in> set dx. k < length w \<Longrightarrow> distinct acc \<Longrightarrow>
     \<exists>ws. revise_scan k l (Inr dy) dx acc = Inr ws \<and> distinct ws \<and> set ws \<subseteq> set acc \<union> set dx"
proof (induction dx arbitrary: acc)
  case Nil
  then show ?case by simp
next
  case (Cons wordX rest)
  from chars_at_ok [OF assms] obtain charY where c: "chars_at l dy = Inr charY" by blast
  let ?acc = "if wordX ! k \<notin> set charY then set_add wordX acc else acc"
  from Cons.prems have r: "\<forall>w \<in> set rest. k < length w" and kx: "k < length wordX" by simp_all
  from Cons.prems(2) have "distinct ?acc" by (simp add: set_add_def)
  from Cons.IH [OF r this] obtain ws
    where ws: "revise_scan k l (Inr dy) rest ?acc = Inr ws" and d: "distinct ws"
      and sub: "set ws \<subseteq> set ?acc \<union> set rest"
    by blast
  have "set ?acc \<subseteq> set acc \<union> {wordX}" by (auto simp: set_add_def)
  with sub have "set ws \<subseteq> set acc \<union> set (wordX # rest)" by auto
  with ws d c kx show ?case by (simp add: py_index_def)
qed

lemma revise_ok:
  assumes "wf_crossword cw" and "node_consistent cw s"
    and "x \<in> set (variables cw)" and "y \<in> set (variables cw)"
    and "overlaps cw (x, y) = Some (Some (k, l))"
  shows "\<exists>s'. revise cw x y s = (s', Inr PyNone) \<and> node_consistent cw s'"
proof -
  from assms(1,5) have k: "int k < var_length x" and l: "int l < var_length y"
    unfolding wf_crossword_def by blast+
  from node_consistent_domain [OF assms(2,3)] obtain dx
    where dx: "getitem (domains s) x = Inr dx"
      and lx: "\<forall>w \<in> set dx. int (length w) = var_length x" by blast
  from node_consistent_domain [OF assms(2,4)] obtain dy
    where dy: "getitem (domains s) y = Inr dy"
      and ly: "\<forall>w \<in> set dy. int (length w) = var_length y" by blast
  from k lx have kx: "\<forall>w \<in> set dx. k < length w" by auto
  from l ly have lyy: "\<forall>w \<in> set dy. l < length w" by auto
  from revise_scan_ok [OF lyy kx, of "[]"] obtain ws
    where ws: "revise_scan k l (Inr dy) dx [] = Inr ws" and d: "distinct ws"
      and sub: "set ws \<subseteq> set dx" by auto
  from remove_words_ok [OF d sub]
  have rw: "remove_words ws dx = (filter (\<lambda>w. w \<notin> set ws) dx, Inr ())" .
  from assms(5) dx dy ws rw
  have run: "revise cw x y s =
      (s\<lparr>domains := AList.update x (filter (\<lambda>w. w \<notin> set ws) dx) (domains s)\<rparr>, Inr PyNone)"
    by (simp add: revise_def)
  have "shrinks s (fst (revise cw x y s))" by (rule revise_shrinks)
  with assms(2) have "node_consistent cw (fst (revise cw x y s))" by (rule node_consistent_shrinks)
  with run show ?thesis by simp
qed

lemma ac3_loop_ok:
  assumes "wf_crossword cw"
  shows "node_consistent cw s \<Longrightarrow> arcs_ok cw q \<Longrightarrow>
     \<exists>s'. ac3_loop cw q s = (s', Inr (PyBool True)) \<and> node_consistent cw s'"
proof (induction q arbitrary: s)
  case Nil
  then show ?case by simp
next
  case (Cons a q)
  obtain x y where a: "a = (x, y)" by (cases a)
  from Cons.prems(2) a obtain k l where x: "x \<in> set (variables cw)" and y: "y \<in> set (variables cw)"
    and ov: "overlaps cw (x, y) = Some (Some (k, l))"
    by (auto simp: arcs_ok_def)
  from revise_ok [OF assms Cons.prems(1) x y ov] obtain s1
    where r: "revise cw x y s = (s1, Inr PyNone)" and n1: "node_consistent cw s1" by blast
  from Cons.prems(2) have "arcs_ok cw q" by (simp add: arcs_ok_def)
  from Cons.IH [OF n1 this] a r show ?case by simp
qed

lemma ac3_ok:
  assumes "wf_crossword cw" and "node_consistent cw s"
  shows "\<exists>s' r. ac3 cw None s = (s', Inr r) \<and> node_consistent cw s'"
proof -
  from all_arcs_ok [OF assms(1) subset_refl] obtain q
    where q: "all_arcs cw (variables cw) = Inr q" and ok: "arcs_ok cw q" by blast
  from ac3_loop_ok [OF assms ok] q show ?thesis by (auto simp: ac3_def)
qed

subsection \<open>The steps of the search do not raise\<close>

lemma neighbor_loop_ok:
  assumes "wf_crossword cw" and "distinct (map fst a)"
    and "\<forall>(u, wu) \<in> set a. int (length wu) = var_length u"
    and "(v, w) \<in> set a"
  shows "set ns \<subseteq> set (neighbors cw v) \<Longrightarrow> \<exists>b. neighbor_loop cw a v ns = Inr b"
proof (induction ns)
  case Nil
  show ?case by auto
next
  case (Cons n ns)
  then obtain b where b: "neighbor_loop cw a v ns = Inr b" by auto
  have gv: "getitem a v = Inr w" using assms(2,4) by (rule getitem_distinct)
  from assms(3,4) have lw: "int (length w) = var_length v" by auto
  show ?case
  proof (cases "n \<in> set (map fst a)")
    case False
    with b show ?thesis by simp
  next
    case True
    then obtain w' where nw: "(n, w') \<in> set a" by auto
    have gn: "getitem a n = Inr w'" using assms(2) nw by (rule getitem_distinct)
    from assms(3) nw have ln: "int (length w') = var_length n" by auto
    from Cons.prems have "n \<in> set (neighbors cw v)" by simp
    from neighbors_overlap [OF assms(1) this] obtain k l
      where ov: "overlaps cw (v, n) = Some (Some (k, l))"
        and k: "int k < var_length v" and l: "int l < var_length n" by blast
    from k lw have k': "k < length w" by simp
    from l ln have l': "l < length w'" by simp
    from True ov gv gn k' l' b show ?thesis by (auto simp: py_index_def)
  qed
qed

lemma consistent_loop_ok:
  assumes "wf_crossword cw" and "distinct (map fst a)"
    and "\<forall>(u, wu) \<in> set a. int (length wu) = var_length u"
  shows "set vs \<subseteq> fst ` set a \<Longrightarrow> \<exists>b. consistent_loop cw a vs = Inr b"
proof (induction vs)
  case Nil
  show ?case by auto
next
  case (Cons v vs)
  then obtain b where b: "consistent_loop cw a vs = Inr b" by auto
  from Cons.prems have "v \<in> fst ` set a" by simp
  then obtain w where vw: "(v, w) \<in> set a" by force
  have gv: "getitem a v = Inr w" using assms(2) vw by (rule getitem_distinct)
  from neighbor_loop_ok [OF assms vw subset_refl] obtain c
    where c: "neighbor_loop cw a v (neighbors cw v) = Inr c" by blast
  from gv b c show ?case by auto
qed

lemma consistent_ok:
  assumes "wf_crossword cw" and "deref s p = Inr a" and "distinct (map fst a)"
    and "\<forall>(u, wu) \<in> set a. int (length wu) = var_length u"
  shows "\<exists>b. snd (consistent cw p s) = Inr b"
proof -
  have "set (map fst a) \<subseteq> fst ` set a" by simp
  from consistent_loop_ok [OF assms(1,3,4) this] obtain b
    where "consistent_loop cw a (map fst a) = Inr b" by blast
  with assms(2) show ?thesis by (auto simp: consistent_def)
qed

lemma remaining_values_ok:
  "set us \<subseteq> fst ` set doms \<Longrightarrow> \<exists>r. remaining_values doms us = Inr r"
proof (induction us)
  case Nil
  show ?case by simp
next
  case (Cons v us)
  then obtain r where r: "remaining_values doms us = Inr r" by auto
  from Cons.prems have "v \<in> fst ` set doms" by simp
  then have "\<exists>d. getitem doms v = Inr d" by (simp only: getitem_keys)
  then obtain d where "getitem doms v = Inr d" by (rule exE)
  with r show ?case by simp
qed

lemma select_unassigned_variable_ok:
  assumes "node_consistent cw s" and "deref s p = Inr a"
    and "v0 \<in> set (variables cw)" and "v0 \<notin> fst ` set a"
  shows "\<exists>var. snd (select_unassigned_variable cw p s) = Inr var"
proof -
  define us where "us = unassigned_loop a (variables cw) []"
  define degs where "degs = sort_key (\<lambda>e. - snd e) (map (\<lambda>v. (v, int (length (neighbors cw v)))) us)"
  have set_us: "set us = {v \<in> set (variables cw). v \<notin> fst ` set a}"
    by (simp add: us_def set_unassigned_loop)
  with assms(3,4) have us: "us \<noteq> []" by auto
  from set_us assms(1) have "set us \<subseteq> fst ` set (domains s)"
    by (auto simp: node_consistent_def)
  from remaining_values_ok [OF this] obtain nrv
    where nrv: "remaining_values (domains s) us = Inr nrv" by blast
  from remaining_values_keys [OF nrv] us have "nrv \<noteq> []" by auto
  then have "length (sort_key snd nrv) \<noteq> 0" by simp
  then have sn: "sort_key snd nrv \<noteq> []" by (simp del: length_sort)
  from us have "length degs \<noteq> 0" by (simp add: degs_def)
  then have dn: "degs \<noteq> []" by simp
  have sel: "snd (select_unassigned_variable cw p s) =
     snd (case sort_key snd nrv of
        [] \<Rightarrow> (s, Inl IndexError)
      | [(v, n)] \<Rightarrow> (s, Inr v)
      | (v, n) # (v', n') # _ \<Rightarrow>
          (if n \<noteq> n' then (s, Inr v)
           else (case degs of [] \<Rightarrow> (s, Inl IndexError) | (d, _) # _ \<Rightarrow> (s, Inr d))))"
    using assms(2) nrv unfolding us_def degs_def
    by (simp add: select_unassigned_variable_def)
  obtain x xs where x: "sort_key snd nrv = x # xs" using sn by (cases "sort_key snd nrv") auto
  obtain v n where xv: "x = (v, n)" by (cases x)
  obtain z zs where z: "degs = z # zs" using dn by (cases degs) auto
  obtain d m where zd: "z = (d, m)" by (cases z)
  show ?thesis
  proof (cases xs)
    case Nil
    with sel x xv show ?thesis by simp
  next
    case (Cons y ys)
    obtain v' n' where "y = (v', n')" by (cases y)
    with sel x xv Cons z zd show ?thesis by simp
  qed
qed

lemma count_loop_keys:
  "count_loop k l wordV wordsN ne = Inr ne' \<Longrightarrow> fst ` set ne' = fst ` set ne"
proof (induction wordsN arbitrary: ne)
  case Nil
  then show ?case by simp
next
  case (Cons wordN rest)
  from Cons.prems have kv: "k < length wordV" and ln: "l < length wordN"
    by (auto simp: py_index_def split: if_splits)
  show ?case
  proof (cases "wordV ! k \<noteq> wordN ! l")
    case False
    with Cons.prems kv ln have "count_loop k l wordV rest ne = Inr ne'"
      by (simp add: py_index_def)
    then show ?thesis by (rule Cons.IH)
  next
    case True
    with Cons.prems kv ln obtain n where n: "getitem ne wordV = Inr n"
      and rec: "count_loop k l wordV rest (AList.update wordV (n + 1) ne) = Inr ne'"
      by (cases "getitem ne wordV") (simp_all add: py_index_def)
    from n have "\<exists>d. getitem ne wordV = Inr d" by (rule exI)
    then have "wordV \<in> fst ` set ne" by (simp only: getitem_keys)
    then have "fst ` set (AList.update wordV (n + 1) ne) = fst ` set ne"
      by (auto simp: fst_set_update)
    with Cons.IH [OF rec] show ?thesis by simp
  qed
qed

lemma neighbor_count_loop_keys:
  "neighbor_count_loop cw doms a var wordV ns ne = Inr ne' \<Longrightarrow> fst ` set ne' = fst ` set ne"
proof (induction ns arbitrary: ne)
  case Nil
  then show ?case by simp
next
  case (Cons n ns)
  show ?case
  proof (cases "n \<in> fst ` set a")
    case True
    with Cons.prems have "neighbor_count_loop cw doms a var wordV ns ne = Inr ne'" by simp
    then show ?thesis by (rule Cons.IH)
  next
    case False
    from Cons.prems False obtain k l where ov: "overlaps cw (var, n) = Some (Some (k, l))"
      by (cases "overlaps cw (var, n)") (auto split: option.splits)
    from Cons.prems False ov obtain wordsN where dn: "getitem doms n = Inr wordsN"
      by (cases "getitem doms n") simp_all
    from Cons.prems False ov dn obtain ne1
      where c: "count_loop k l wordV wordsN ne = Inr ne1"
        and rec: "neighbor_count_loop cw doms a var wordV ns ne1 = Inr ne'"
      by (cases "count_loop k l wordV wordsN ne") simp_all
    from Cons.IH [OF rec] count_loop_keys [OF c] show ?thesis by simp
  qed
qed

lemma eliminated_loop_keys:
  "eliminated_loop cw doms a var ws ne = Inr ne' \<Longrightarrow> fst ` set ne' = fst ` set ne"
proof (induction ws arbitrary: ne)
  case Nil
  then show ?case by simp
next
  case (Cons wordV rest)
  from Cons.prems obtain ne1
    where n1: "neighbor_count_loop cw doms a var wordV (neighbors cw var) ne = Inr ne1"
      and rec: "eliminated_loop cw doms a var rest ne1 = Inr ne'"
    by (cases "neighbor_count_loop cw doms a var wordV (neighbors cw var) ne") simp_all
  from Cons.IH [OF rec] neighbor_count_loop_keys [OF n1] show ?case by simp
qed

lemma fold_update_keys:
  "fst ` set (fold (\<lambda>word. AList.update word (0::int)) ws acc) = set ws \<union> fst ` set acc"
  by (induction ws arbitrary: acc) (auto simp: fst_set_update)

lemma order_domain_values_words:
  assumes "snd (order_domain_values cw var p s) = Inr ws"
    and "getitem (domains s) var = Inr d"
  shows "set ws = set d"
proof -
  let ?ne0 = "fold (\<lambda>word. AList.update word (0::int)) d []"
  from assms obtain a where a: "deref s p = Inr a"
    by (cases "deref s p") (simp_all add: order_domain_values_def)
  from assms a obtain ne
    where loop: "eliminated_loop cw (domains s) a var d ?ne0 = Inr ne"
      and ws: "ws = map fst (sort_key snd ne)"
    by (cases "eliminated_loop cw (domains s) a var d ?ne0")
       (simp_all add: order_domain_values_def)
  from eliminated_loop_keys [OF loop] have "fst ` set ne = set d"
    by (simp add: fold_update_keys)
  with ws show ?thesis by simp
qed

subsection \<open>A slot without candidates: the search fails, but it runs\<close>

text \<open>
  \<open>dead_end cw s v0\<close>: the crossword is well formed, the domains are node consistent,
  and the domain of the variable \<open>v0\<close> is empty.
\<close>

definition dead_end :: "crossword \<Rightarrow> creator \<Rightarrow> variable \<Rightarrow> bool" where
  "dead_end cw s v0 \<longleftrightarrow>
     wf_crossword cw \<and> node_consistent cw s \<and> v0 \<in> set (variables cw)
     \<and> getitem (domains s) v0 = Inr []"

text \<open>
  \<open>open_node s p v0\<close>: the address \<open>p\<close> holds a dictionary whose words have the
  lengths of their slots and which does not bind \<open>v0\<close>.
\<close>

definition open_node :: "creator \<Rightarrow> ref \<Rightarrow> variable \<Rightarrow> bool" where
  "open_node s p v0 \<longleftrightarrow>
     p < length (store s) \<and> distinct (map fst (store s ! p))
     \<and> (\<forall>(v, w) \<in> set (store s ! p). int (length w) = var_length v)
     \<and> v0 \<notin> fst ` set (store s ! p)"

lemma dead_end_extends: "dead_end cw s v0 \<Longrightarrow> extends s s' \<Longrightarrow> dead_end cw s' v0"
  by (simp add: dead_end_def node_consistent_def extends_def)

lemma open_node_extends: "open_node s p v0 \<Longrightarrow> extends s s' \<Longrightarrow> open_node s' p v0"
proof -
  assume n: "open_node s p v0" and e: "extends s s'"
  from n have p: "p < length (store s)" by (simp add: open_node_def)
  from extends_length [OF e] extends_nth [OF e p] n show ?thesis
    by (simp add: open_node_def)
qed

lemma open_node_extended:
  assumes "open_node s p v0" and "var \<notin> fst ` set (store s ! p)" and "var \<noteq> v0"
    and "int (length w) = var_length var"
  shows "open_node (extended s p var w) (length (store s)) v0"
proof -
  have "store (extended s p var w) ! length (store s) = store s ! p @ [(var, w)]"
    using assms(2) by (simp add: extended_def update_fresh)
  with assms show ?thesis by (auto simp: open_node_def extended_def)
qed

lemma backtrack_dead_end:
  "dead_end cw s v0 \<and> open_node s p v0 \<longrightarrow> snd (backtrack cw p s) = Inr None"
  "dead_end cw s v0 \<and> open_node s p v0 \<and> var \<notin> fst ` set (store s ! p)
     \<and> (\<forall>w \<in> set vals. int (length w) = var_length var) \<and> (vals \<noteq> [] \<longrightarrow> var \<noteq> v0) \<longrightarrow>
   snd (backtrack_loop cw p var vals s) = Inr None"
proof (induction cw p s and cw p var vals s rule: backtrack_induct)
  case (backtrack cw p s)
  show ?case
  proof (intro impI)
    assume pre: "dead_end cw s v0 \<and> open_node s p v0"
    then have de: "dead_end cw s v0" and node: "open_node s p v0" by simp_all
    from de have wf: "wf_crossword cw" and nc: "node_consistent cw s"
      and v0: "v0 \<in> set (variables cw)" and empty: "getitem (domains s) v0 = Inr []"
      by (simp_all add: dead_end_def)
    from node have d: "deref s p = Inr (store s ! p)" and v0a: "v0 \<notin> fst ` set (store s ! p)"
      by (simp_all add: open_node_def deref_def)
    from v0 v0a have "fst ` set (store s ! p) \<noteq> set (variables cw)" by blast
    with d have ac: "snd (assignment_complete cw p s) = Inr False"
      by (simp add: assignment_complete_def)
    from select_unassigned_variable_ok [OF nc d v0 v0a] obtain var
      where var: "snd (select_unassigned_variable cw p s) = Inr var" by blast
    have "select_unassigned_variable cw p s = (s, Inr var)"
      using var select_unassigned_variable_state [of cw p s]
      by (cases "select_unassigned_variable cw p s") simp
    from select_unassigned_variable_sound [OF this] d
    have vv: "var \<in> set (variables cw)" and fresh: "var \<notin> fst ` set (store s ! p)"
      by auto
    from order_domain_values_total [OF wf nc vv d] obtain vals
      where vals: "snd (order_domain_values cw var p s) = Inr vals" by auto
    from node_consistent_domain [OF nc vv] obtain dv
      where dv: "getitem (domains s) var = Inr dv"
        and len: "\<forall>w \<in> set dv. int (length w) = var_length var" by blast
    from order_domain_values_words [OF vals dv] have sv: "set vals = set dv" .
    with len have l: "\<forall>w \<in> set vals. int (length w) = var_length var" by simp
    have "vals \<noteq> [] \<longrightarrow> var \<noteq> v0"
    proof (intro impI notI)
      assume "vals \<noteq> []" and "var = v0"
      with dv empty sv show False by simp
    qed
    with backtrack.IH [OF ac var vals] pre fresh l
    have "snd (backtrack_loop cw p var vals s) = Inr None" by simp
    with ac var vals show "snd (backtrack cw p s) = Inr None"
      by (subst backtrack_unfold) simp
  qed
next
  case (Nil cw p var s)
  show ?case by simp
next
  case (Cons cw p var w rest s)
  let ?q = "length (store s)"
  let ?s2 = "extended s p var w"
  show ?case
  proof (intro impI)
    assume pre: "dead_end cw s v0 \<and> open_node s p v0 \<and> var \<notin> fst ` set (store s ! p)
       \<and> (\<forall>x \<in> set (w # rest). int (length x) = var_length var)
       \<and> (w # rest \<noteq> [] \<longrightarrow> var \<noteq> v0)"
    then have de: "dead_end cw s v0" and node: "open_node s p v0"
      and fresh: "var \<notin> fst ` set (store s ! p)"
      and lw: "int (length w) = var_length var"
      and lr: "\<forall>x \<in> set rest. int (length x) = var_length var"
      and ne: "var \<noteq> v0"
      by simp_all
    from node have p: "p < length (store s)" by (simp add: open_node_def)
    from de have wf: "wf_crossword cw" by (simp add: dead_end_def)
    have e2: "extends s ?s2" by (rule extended_extends)
    have de2: "dead_end cw ?s2 v0" using de e2 by (rule dead_end_extends)
    have n2: "open_node ?s2 ?q v0" using node fresh ne lw by (rule open_node_extended)
    have keep: "dead_end cw t v0 \<and> open_node t p v0 \<and> var \<notin> fst ` set (store t ! p)
       \<and> (\<forall>x \<in> set rest. int (length x) = var_length var) \<and> (rest \<noteq> [] \<longrightarrow> var \<noteq> v0)"
      if "extends s t" for t
      using dead_end_extends [OF de that] open_node_extends [OF node that]
        extends_nth [OF that p] fresh lr ne by simp
    from n2 have d2: "deref ?s2 ?q = Inr (store ?s2 ! ?q)"
      and k2: "distinct (map fst (store ?s2 ! ?q))"
      and l2: "\<forall>(u, wu) \<in> set (store ?s2 ! ?q). int (length wu) = var_length u"
      by (simp_all add: open_node_def deref_def)
    from consistent_ok [OF wf d2 k2 l2] obtain ok
      where ok: "snd (consistent cw ?q ?s2) = Inr ok" by blast
    show "snd (backtrack_loop cw p var (w # rest) s) = Inr None"
    proof (cases ok)
      case False
      with Cons.IH(3) p ok keep [OF e2]
      have "snd (backtrack_loop cw p var rest ?s2) = Inr None" by simp
      with p ok False show ?thesis by (subst backtrack_loop_unfold) simp
    next
      case True
      with Cons.IH(1) p ok de2 n2 have b: "snd (backtrack cw ?q ?s2) = Inr None" by simp
      obtain s4 where s4: "backtrack cw ?q ?s2 = (s4, Inr None)"
        using b by (cases "backtrack cw ?q ?s2") simp
      from backtrack_extends(1) [of ?s2 cw ?q] s4 have "extends ?s2 s4" by simp
      with e2 have e4: "extends s s4" by (rule extends_trans)
      from Cons.IH(2) [OF p _ s4] ok True keep [OF e4]
      have "snd (backtrack_loop cw p var rest s4) = Inr None" by simp
      with p ok True s4 show ?thesis by (subst backtrack_loop_unfold) simp
    qed
  qed
qed

lemma enforce_store: "store (fst (enforce_loop vs s)) = store s"
proof (induction vs arbitrary: s)
  case Nil
  show ?case by simp
next
  case (Cons v vs)
  show ?case
  proof (cases "getitem (domains s) v")
    case (Inl e)
    then show ?thesis by simp
  next
    case (Inr d)
    obtain d' r where rw: "remove_words (wrong_length_words v d []) d = (d', r)" by fastforce
    with Inr Cons.IH [of "s\<lparr>domains := AList.update v d' (domains s)\<rparr>"] show ?thesis
      by (cases r) simp_all
  qed
qed

lemma revise_store: "store (fst (revise cw x y s)) = store s"
  by (simp add: revise_def split: option.splits sum.splits prod.splits)

lemma ac3_loop_store: "store (fst (ac3_loop cw q s)) = store s"
proof (induction cw q s rule: ac3_loop.induct)
  case (1 cw s)
  show ?case by simp
next
  case (2 cw x y queue s)
  obtain s1 r where rv: "revise cw x y s = (s1, r)" by fastforce
  then have s1: "store s1 = store s" using revise_store [of cw x y s] by simp
  show ?case
  proof (cases r)
    case (Inl e)
    with rv s1 show ?thesis by simp
  next
    case (Inr v)
    then have "snd (revise cw x y s) = Inr v" using rv by simp
    then have v: "v = PyNone" by (rule revise_value)
    have "store (fst (ac3_loop cw queue s1)) = store s1"
      using "2.IH"(2) [of s1 r v] rv Inr v by simp
    with rv Inr v s1 show ?thesis by simp
  qed
qed

lemma ac3_store: "store (fst (ac3 cw arcs s)) = store s"
  by (simp add: ac3_def ac3_loop_store split: option.splits sum.splits)

text \<open>
  Four slots: the two crossing slots \<open>across1\<close> and \<open>down1\<close> of length 3, and two slots of
  length 5, \<open>far1\<close> and \<open>far2\<close>, in rows 4 and 6, that cross nothing.
\<close>

definition far1 :: variable where "far1 = Variable 4 0 ACROSS 5"
definition far2 :: variable where "far2 = Variable 6 0 ACROSS 5"

definition four_slots :: "string list \<Rightarrow> crossword" where
  "four_slots ws =
     \<lparr>variables = [across1, down1, far1, far2], words = ws,
      overlaps = (\<lambda>(u, v).
        if u = across1 \<and> v = down1 then Some (Some (1, 0))
        else if u = down1 \<and> v = across1 then Some (Some (0, 1))
        else if u \<noteq> v \<and> u \<in> set [across1, down1, far1, far2]
                \<and> v \<in> set [across1, down1, far1, far2] then Some None
        else None)\<rparr>"

lemma wf_four_slots: "wf_crossword (four_slots ws)"
  unfolding wf_crossword_def four_slots_def
  by (auto simp: across1_def down1_def far1_def far2_def split: if_splits)

lemma ac3_shrinks: "shrinks s (fst (ac3 cw arcs s))"
  by (auto simp: ac3_def shrinks_refl ac3_loop_shrinks split: option.splits sum.splits)

text \<open>
  C4, as it holds of the code. On a well-formed crossword, when node consistency or arc
  consistency leaves some slot without a word, \<^verbatim>\<open>solve\<close> returns \<^verbatim>\<open>None\<close> and does not
  raise. It does so through the search, not before it: \<^verbatim>\<open>solve\<close> calls \<^verbatim>\<open>backtrack\<close>
  on a new empty assignment whatever the propagation has left, so the store holds at least
  one more dictionary afterwards.
\<close>

theorem solve_fails_through_search:
  assumes "wf_crossword cw" and "fst ` set (domains s) = set (variables cw)"
    and "getitem (domains (fst (enforce_node_consistency s))) v = Inr []
         \<or> getitem (domains (fst (ac3 cw None (fst (enforce_node_consistency s))))) v = Inr []"
  shows "snd (solve cw s) = Inr None \<and> length (store s) < length (store (fst (solve cw s)))"
proof -
  from enforce_node_consistent [OF assms(2)] obtain s1
    where e: "enforce_node_consistency s = (s1, Inr ())" and nc1: "node_consistent cw s1"
    by blast
  from ac3_ok [OF assms(1) nc1] obtain s2 r2
    where a: "ac3 cw None s1 = (s2, Inr r2)" and nc2: "node_consistent cw s2" by blast
  have sh: "shrinks s1 s2" using ac3_shrinks [of s1 cw None] a by simp
  from assms(3) e a have "getitem (domains s1) v = Inr [] \<or> getitem (domains s2) v = Inr []"
    by simp
  then have empty: "getitem (domains s2) v = Inr []"
    using empty_domain_shrinks [OF sh] by blast
  then have "\<exists>d. getitem (domains s2) v = Inr d" by (rule exI)
  then have "v \<in> fst ` set (domains s2)" by (simp only: getitem_keys)
  with nc2 have v: "v \<in> set (variables cw)" by (simp add: node_consistent_def)
  let ?s3 = "s2\<lparr>store := store s2 @ [[]]\<rparr>"
  let ?p = "length (store s2)"
  have de: "dead_end cw ?s3 v"
    using assms(1) nc2 v empty by (simp add: dead_end_def node_consistent_def)
  have node: "open_node ?s3 ?p v" by (simp add: open_node_def)
  from backtrack_dead_end(1) [of cw ?s3 v ?p] de node
  have b: "snd (backtrack cw ?p ?s3) = Inr None" by simp
  have sv: "solve cw s = backtrack cw ?p ?s3"
    using e a by (simp add: solve_def dict_new_def)
  have "store s1 = store s"
    using enforce_store [of "map fst (domains s)" s] e by (simp add: enforce_node_consistency_def)
  moreover have "store s2 = store s1" using ac3_store [of cw None s1] a by simp
  ultimately have len: "length (store ?s3) = length (store s) + 1" by simp
  have "extends ?s3 (fst (backtrack cw ?p ?s3))" by (rule backtrack_extends(1))
  then have "length (store ?s3) \<le> length (store (fst (backtrack cw ?p ?s3)))"
    by (rule extends_length)
  with len sv b show ?thesis by simp
qed

theorem solve_fails_through_search_witness:
  "wf_crossword (three_slots [''oho'', ''ono''])
   \<and> fst ` set (domains (init (three_slots [''oho'', ''ono'']))) =
       set (variables (three_slots [''oho'', ''ono'']))
   \<and> getitem (domains (fst (enforce_node_consistency (init (three_slots [''oho'', ''ono'']))))) middle =
       Inr [''oho'', ''ono'']
   \<and> getitem (domains (fst (ac3 (three_slots [''oho'', ''ono'']) None
        (fst (enforce_node_consistency (init (three_slots [''oho'', ''ono''])))))))
        middle = Inr []
   \<and> snd (solve (three_slots [''oho'', ''ono'']) (init (three_slots [''oho'', ''ono'']))) = Inr None
   \<and> length (store (init (three_slots [''oho'', ''ono''])))
       < length (store (fst (solve (three_slots [''oho'', ''ono''])
                                  (init (three_slots [''oho'', ''ono''])))))"
proof -
  let ?cw = "three_slots [''oho'', ''ono'']"
  have wf: "wf_crossword ?cw" by (rule wf_three_slots)
  have k: "fst ` set (domains (init ?cw)) = set (variables ?cw)"
    by (simp add: init_def three_slots_def image_image)
  have n: "getitem (domains (fst (enforce_node_consistency (init ?cw)))) middle =
      Inr [''oho'', ''ono'']"
    by code_simp
  have a: "getitem (domains (fst (ac3 ?cw None (fst (enforce_node_consistency (init ?cw))))))
      middle = Inr []"
    by code_simp
  from solve_fails_through_search [OF wf k, of middle] a
  have "snd (solve ?cw (init ?cw)) = Inr None
      \<and> length (store (init ?cw)) < length (store (fst (solve ?cw (init ?cw))))"
    by blast
  with wf k n a show ?thesis by blast
qed

text \<open>
  C4, as the specification states it, fails. On the four slots with the words cat, car,
  art and dog, node consistency leaves the two slots of length 5 without a word. All the
  same \<^verbatim>\<open>solve\<close> runs the search: starting from an empty store, it leaves five
  assignment dictionaries behind, the root and four extensions of it, before it returns
  \<^verbatim>\<open>None\<close>.
\<close>

theorem solve_searches_despite_empty_domain:
  "getitem (domains (fst (enforce_node_consistency
       (init (four_slots [''cat'', ''car'', ''art'', ''dog''])))))
     far1 = Inr []
   \<and> store (init (four_slots [''cat'', ''car'', ''art'', ''dog''])) = []
   \<and> snd (solve (four_slots [''cat'', ''car'', ''art'', ''dog''])
            (init (four_slots [''cat'', ''car'', ''art'', ''dog'']))) = Inr None
   \<and> length (store (fst (solve (four_slots [''cat'', ''car'', ''art'', ''dog''])
            (init (four_slots [''cat'', ''car'', ''art'', ''dog'']))))) = 5"
  by code_simp

end
